theory Spec2Isabelle
  imports Main "HOL-Library.Word" "HOL-Library.Code_Target_Nat"
begin

section \<open>Memory model\<close>

text \<open>
  The container of \<^verbatim>\<open>list.h\<close> is a graph of heap nodes joined by raw pointers, so the
  embedding works on an explicit store. A node address is a natural number and a pointer
  is an \<open>addr option\<close>, where \<open>None\<close> is \<^verbatim>\<open>nullptr\<close>. The store is the list of all
  cells ever handed out: cell \<open>a\<close> is \<open>Some n\<close> while the node at address \<open>a\<close> is
  alive and \<open>None\<close> once it has been deleted. \<^verbatim>\<open>new\<close> hands out the next unused
  address, and throws \<^verbatim>\<open>std::bad_alloc\<close> once \<open>max_nodes\<close> addresses are used up (a
  64-bit pointer has \<open>2 ^ 64 - 1\<close> values other than null). Reading or writing through
  a null or dangling pointer is undefined behaviour in C++; the model makes it the error
  \<open>UndefinedBehaviour\<close>, so that no result is claimed for it. \<open>NoSuchList\<close> is not an
  error of the container: it is what a program over several lists (\<open>exec\<close> below) answers
  when an operation names a list that was never constructed.
\<close>

type_synonym addr = nat

datatype error =
    Thrown string
  | BadAlloc
  | AssertFailed
  | UndefinedBehaviour
  | NoSuchList

record 'a Node =
  data :: 'a
  pNext :: "addr option"
  pPrev :: "addr option"

type_synonym 'a heap = "'a Node option list"

definition max_nodes :: nat where
  "max_nodes = 2 ^ 64 - 1"

definition lookup :: "'a heap \<Rightarrow> addr \<Rightarrow> 'a Node option" where
  "lookup h a = (if a < length h then h ! a else None)"

text \<open>\<^verbatim>\<open>p->field\<close> as an rvalue: the node behind a pointer that must be alive.\<close>

definition deref :: "'a heap \<Rightarrow> addr \<Rightarrow> error + 'a Node" where
  "deref h a = (case lookup h a of None \<Rightarrow> Inl UndefinedBehaviour | Some n \<Rightarrow> Inr n)"

text \<open>\<^verbatim>\<open>p->field = x\<close>: the node behind \<open>a\<close> is replaced by \<open>f\<close> of itself.\<close>

definition update_node :: "'a heap \<Rightarrow> addr \<Rightarrow> ('a Node \<Rightarrow> 'a Node) \<Rightarrow> error + 'a heap" where
  "update_node h a f =
     (case lookup h a of None \<Rightarrow> Inl UndefinedBehaviour | Some n \<Rightarrow> Inr (h[a := Some (f n)]))"

text \<open>\<^verbatim>\<open>new list<T>::Node(data)\<close>: both links of the new node are null.\<close>

definition new_Node :: "'a heap \<Rightarrow> 'a \<Rightarrow> error + (addr \<times> 'a heap)" where
  "new_Node h v =
     (if length h < max_nodes
      then Inr (length h, h @ [Some \<lparr>data = v, pNext = None, pPrev = None\<rparr>])
      else Inl BadAlloc)"

text \<open>\<^verbatim>\<open>delete p\<close> for a non-null \<open>p\<close>.\<close>

definition delete_Node :: "'a heap \<Rightarrow> addr \<Rightarrow> error + 'a heap" where
  "delete_Node h a =
     (case lookup h a of None \<Rightarrow> Inl UndefinedBehaviour | Some n \<Rightarrow> Inr (h[a := None]))"

text \<open>
  A \<^verbatim>\<open>T &\<close> returned by the container always names the \<^verbatim>\<open>data\<close> member of a node, so
  a reference is the address of that node; \<open>get_ref\<close> reads through it and \<open>set_ref\<close>
  assigns through it.
\<close>

type_synonym ref = addr

definition get_ref :: "'a heap \<Rightarrow> ref \<Rightarrow> error + 'a" where
  "get_ref h r = (case deref h r of Inl e \<Rightarrow> Inl e | Inr n \<Rightarrow> Inr (data n))"

definition set_ref :: "'a heap \<Rightarrow> ref \<Rightarrow> 'a \<Rightarrow> error + 'a heap" where
  "set_ref h r v = update_node h r (\<lambda>n. n\<lparr>data := v\<rparr>)"

section \<open>The list object and its iterator\<close>

text \<open>\<^verbatim>\<open>size_t\<close> is a 64-bit unsigned integer: \<open>+\<close> and \<open>-\<close> wrap.\<close>

record custom_list =
  numElements :: "64 word"
  pHead :: "addr option"
  pTail :: "addr option"

datatype iterator = Iterator (it_p: "addr option")

definition empty_message :: string where
  "empty_message = ''ERROR: unable to access data from an empty list''"

definition size_l :: "custom_list \<Rightarrow> 64 word" where
  "size_l l = numElements l"

definition empty_l :: "custom_list \<Rightarrow> bool" where
  "empty_l l = (size_l l = 0)"

definition begin_l :: "custom_list \<Rightarrow> iterator" where
  "begin_l l = Iterator (pHead l)"

definition rbegin :: "custom_list \<Rightarrow> iterator" where
  "rbegin l = Iterator (pTail l)"

definition end_l :: "custom_list \<Rightarrow> iterator" where
  "end_l l = Iterator None"

text \<open>The default constructor.\<close>

definition list_default :: custom_list where
  "list_default = \<lparr>numElements = 0, pHead = None, pTail = None\<rparr>"

subsection \<open>Iterator operators\<close>

text \<open>\<^verbatim>\<open>operator *\<close>: a reference to \<^verbatim>\<open>p->data\<close>, or the thrown message when \<open>p\<close> is null.\<close>

definition iter_deref :: "iterator \<Rightarrow> error + ref" where
  "iter_deref it = (case it_p it of Some a \<Rightarrow> Inr a | None \<Rightarrow> Inl (Thrown empty_message))"

text \<open>
  The four stepping operators return a pair: the iterator object after the call, and the
  iterator value handed back to the caller. All four end in \<^verbatim>\<open>return *this\<close>, executed
  after \<open>p\<close> has been moved.
\<close>

definition iter_inc_post :: "'a heap \<Rightarrow> iterator \<Rightarrow> error + (iterator \<times> iterator)" where
  "iter_inc_post h it =
     (case it_p it of
        None \<Rightarrow> Inr (it, it)
      | Some a \<Rightarrow> (case deref h a of Inl e \<Rightarrow> Inl e
                  | Inr n \<Rightarrow> let this = Iterator (pNext n) in Inr (this, this)))"

definition iter_inc :: "'a heap \<Rightarrow> iterator \<Rightarrow> error + (iterator \<times> iterator)" where
  "iter_inc h it =
     (case it_p it of
        None \<Rightarrow> Inr (it, it)
      | Some a \<Rightarrow> (case deref h a of Inl e \<Rightarrow> Inl e
                  | Inr n \<Rightarrow> let this = Iterator (pNext n) in Inr (this, this)))"

definition iter_dec_post :: "'a heap \<Rightarrow> iterator \<Rightarrow> error + (iterator \<times> iterator)" where
  "iter_dec_post h it =
     (case it_p it of
        None \<Rightarrow> Inr (it, it)
      | Some a \<Rightarrow> (case deref h a of Inl e \<Rightarrow> Inl e
                  | Inr n \<Rightarrow> let this = Iterator (pPrev n) in Inr (this, this)))"

definition iter_dec :: "'a heap \<Rightarrow> iterator \<Rightarrow> error + (iterator \<times> iterator)" where
  "iter_dec h it =
     (case it_p it of
        None \<Rightarrow> Inr (it, it)
      | Some a \<Rightarrow> (case deref h a of Inl e \<Rightarrow> Inl e
                  | Inr n \<Rightarrow> let this = Iterator (pPrev n) in Inr (this, this)))"

subsection \<open>Element access\<close>

definition front :: "custom_list \<Rightarrow> error + ref" where
  "front l = (case pHead l of Some a \<Rightarrow> Inr a | None \<Rightarrow> Inl (Thrown empty_message))"

definition back_l :: "custom_list \<Rightarrow> error + ref" where
  "back_l l = (case pTail l of Some a \<Rightarrow> Inr a | None \<Rightarrow> Inl (Thrown empty_message))"

section \<open>Insertion at the ends\<close>

text \<open>
  \<^verbatim>\<open>push_back\<close> and \<^verbatim>\<open>push_front\<close>. The overloads taking \<^verbatim>\<open>const T &\<close> and
  \<^verbatim>\<open>T &&\<close> have the same body (both copy-construct the node from the named parameter),
  so one definition stands for each pair.
\<close>

definition push_back :: "'a heap \<Rightarrow> custom_list \<Rightarrow> 'a \<Rightarrow> error + ('a heap \<times> custom_list)" where
  "push_back h l v =
     (if pHead l = None then
        (case new_Node h v of Inl e \<Rightarrow> Inl e
         | Inr (a, h1) \<Rightarrow>
             Inr (h1, l\<lparr>pHead := Some a, pTail := Some a, numElements := numElements l + 1\<rparr>))
      else
        (case new_Node h v of Inl e \<Rightarrow> Inl e
         | Inr (newElement, h1) \<Rightarrow>
            (case update_node h1 newElement (\<lambda>n. n\<lparr>pPrev := pTail l\<rparr>) of Inl e \<Rightarrow> Inl e
             | Inr h2 \<Rightarrow>
                (case pTail l of None \<Rightarrow> Inl UndefinedBehaviour
                 | Some t \<Rightarrow>
                    (case update_node h2 t (\<lambda>n. n\<lparr>pNext := Some newElement\<rparr>) of Inl e \<Rightarrow> Inl e
                     | Inr h3 \<Rightarrow>
                         Inr (h3, l\<lparr>pTail := Some newElement,
                                    numElements := numElements l + 1\<rparr>))))))"

definition push_front :: "'a heap \<Rightarrow> custom_list \<Rightarrow> 'a \<Rightarrow> error + ('a heap \<times> custom_list)" where
  "push_front h l v =
     (if pTail l = None then
        (case new_Node h v of Inl e \<Rightarrow> Inl e
         | Inr (a, h1) \<Rightarrow>
             Inr (h1, l\<lparr>pHead := Some a, pTail := Some a, numElements := numElements l + 1\<rparr>))
      else
        (case new_Node h v of Inl e \<Rightarrow> Inl e
         | Inr (newElement, h1) \<Rightarrow>
            (case update_node h1 newElement (\<lambda>n. n\<lparr>pNext := pHead l\<rparr>) of Inl e \<Rightarrow> Inl e
             | Inr h2 \<Rightarrow>
                (case pHead l of None \<Rightarrow> Inl UndefinedBehaviour
                 | Some hd_a \<Rightarrow>
                    (case update_node h2 hd_a (\<lambda>n. n\<lparr>pPrev := Some newElement\<rparr>) of Inl e \<Rightarrow> Inl e
                     | Inr h3 \<Rightarrow>
                         Inr (h3, l\<lparr>pHead := Some newElement,
                                    numElements := numElements l + 1\<rparr>))))))"

section \<open>Removal\<close>

text \<open>
  \<^verbatim>\<open>erase\<close>. The two \<^verbatim>\<open>assert\<close>s are part of the model (a failed one is the error
  \<open>AssertFailed\<close>). The first block repairs the link that led to the erased node from
  the front, the second the link that led to it from the back.
\<close>

definition erase_unlink_prev ::
  "'a heap \<Rightarrow> custom_list \<Rightarrow> addr \<Rightarrow> error + ('a heap \<times> custom_list)" where
  "erase_unlink_prev h l a =
     (case deref h a of Inl e \<Rightarrow> Inl e
      | Inr n \<Rightarrow>
         (case pPrev n of
            Some pr \<Rightarrow>
              (case update_node h pr (\<lambda>m. m\<lparr>pNext := pNext n\<rparr>) of Inl e \<Rightarrow> Inl e
               | Inr h1 \<Rightarrow> Inr (h1, l))
          | None \<Rightarrow>
              if Some a = pHead l then Inr (h, l\<lparr>pHead := pNext n\<rparr>) else Inl AssertFailed))"

definition erase_unlink_next ::
  "'a heap \<Rightarrow> custom_list \<Rightarrow> addr \<Rightarrow> error + ('a heap \<times> custom_list)" where
  "erase_unlink_next h l a =
     (case deref h a of Inl e \<Rightarrow> Inl e
      | Inr n \<Rightarrow>
         (case pNext n of
            Some nx \<Rightarrow>
              (case update_node h nx (\<lambda>m. m\<lparr>pPrev := pPrev n\<rparr>) of Inl e \<Rightarrow> Inl e
               | Inr h1 \<Rightarrow> Inr (h1, l))
          | None \<Rightarrow>
              if Some a = pTail l then Inr (h, l\<lparr>pTail := pPrev n\<rparr>) else Inl AssertFailed))"

definition erase ::
  "'a heap \<Rightarrow> custom_list \<Rightarrow> iterator \<Rightarrow> error + ('a heap \<times> custom_list \<times> iterator)" where
  "erase h l it =
     (case it_p it of
        None \<Rightarrow> Inr (h, l, Iterator None)
      | Some a \<Rightarrow>
         (case erase_unlink_prev h l a of Inl e \<Rightarrow> Inl e
          | Inr (h1, l1) \<Rightarrow>
             (case erase_unlink_next h1 l1 a of Inl e \<Rightarrow> Inl e
              | Inr (h2, l2) \<Rightarrow>
                 (case deref h2 a of Inl e \<Rightarrow> Inl e
                  | Inr n \<Rightarrow>
                     let pReturn = (case pNext n of Some nx \<Rightarrow> Some nx | None \<Rightarrow> None) in
                     (case delete_Node h2 a of Inl e \<Rightarrow> Inl e
                      | Inr h3 \<Rightarrow>
                          Inr (h3, l2\<lparr>numElements := numElements l2 - 1\<rparr>,
                               Iterator pReturn))))))"

text \<open>\<^verbatim>\<open>pop_back\<close> and \<^verbatim>\<open>pop_front\<close> call \<^verbatim>\<open>erase\<close> and drop the iterator it returns.\<close>

definition pop_back :: "'a heap \<Rightarrow> custom_list \<Rightarrow> error + ('a heap \<times> custom_list)" where
  "pop_back h l =
     (case erase h l (Iterator (pTail l)) of Inl e \<Rightarrow> Inl e | Inr (h1, l1, r) \<Rightarrow> Inr (h1, l1))"

definition pop_front :: "'a heap \<Rightarrow> custom_list \<Rightarrow> error + ('a heap \<times> custom_list)" where
  "pop_front h l =
     (case erase h l (Iterator (pHead l)) of Inl e \<Rightarrow> Inl e | Inr (h1, l1, r) \<Rightarrow> Inr (h1, l1))"

section \<open>Insertion before a position\<close>

text \<open>
  \<^verbatim>\<open>insert\<close>, for both overloads (they differ in \<^verbatim>\<open>std::move\<close> on the value only).
  The three branches are those of the source; control cannot pass all three tests, and
  if it did the function would end without a \<^verbatim>\<open>return\<close>. In the third branch the two
  tests \<^verbatim>\<open>if (pNew->pPrev)\<close> and \<^verbatim>\<open>if (pNew->pNext)\<close> read the new node again, as
  the source does.
\<close>

definition insert_link_prev ::
  "'a heap \<Rightarrow> custom_list \<Rightarrow> addr \<Rightarrow> error + ('a heap \<times> custom_list)" where
  "insert_link_prev h l pNew =
     (case deref h pNew of Inl e \<Rightarrow> Inl e
      | Inr n \<Rightarrow>
         (case pPrev n of
            Some pr \<Rightarrow>
              (case update_node h pr (\<lambda>m. m\<lparr>pNext := Some pNew\<rparr>) of Inl e \<Rightarrow> Inl e
               | Inr h1 \<Rightarrow> Inr (h1, l))
          | None \<Rightarrow> Inr (h, l\<lparr>pHead := Some pNew\<rparr>)))"

definition insert_link_next ::
  "'a heap \<Rightarrow> custom_list \<Rightarrow> addr \<Rightarrow> error + ('a heap \<times> custom_list)" where
  "insert_link_next h l pNew =
     (case deref h pNew of Inl e \<Rightarrow> Inl e
      | Inr n \<Rightarrow>
         (case pNext n of
            Some nx \<Rightarrow>
              (case update_node h nx (\<lambda>m. m\<lparr>pPrev := Some pNew\<rparr>) of Inl e \<Rightarrow> Inl e
               | Inr h1 \<Rightarrow> Inr (h1, l))
          | None \<Rightarrow> Inr (h, l\<lparr>pTail := Some pNew\<rparr>)))"

definition insert_l ::
  "'a heap \<Rightarrow> custom_list \<Rightarrow> iterator \<Rightarrow> 'a \<Rightarrow> error + ('a heap \<times> custom_list \<times> iterator)" where
  "insert_l h l it v =
     (if empty_l l then
        (case new_Node h v of Inl e \<Rightarrow> Inl e
         | Inr (a, h1) \<Rightarrow>
             let l1 = l\<lparr>pHead := Some a, pTail := Some a, numElements := 1\<rparr>
             in Inr (h1, l1, begin_l l1))
      else if it = end_l l then
        (case new_Node h v of Inl e \<Rightarrow> Inl e
         | Inr (pNew, h1) \<Rightarrow>
            (case pTail l of None \<Rightarrow> Inl UndefinedBehaviour
             | Some t \<Rightarrow>
                (case update_node h1 t (\<lambda>n. n\<lparr>pNext := Some pNew\<rparr>) of Inl e \<Rightarrow> Inl e
                 | Inr h2 \<Rightarrow>
                    (case update_node h2 pNew (\<lambda>n. n\<lparr>pPrev := pTail l\<rparr>) of Inl e \<Rightarrow> Inl e
                     | Inr h3 \<Rightarrow>
                         Inr (h3, l\<lparr>pTail := Some pNew, numElements := numElements l + 1\<rparr>,
                              Iterator (Some pNew))))))
      else if it \<noteq> end_l l then
        (case new_Node h v of Inl e \<Rightarrow> Inl e
         | Inr (pNew, h1) \<Rightarrow>
            (case it_p it of None \<Rightarrow> Inl UndefinedBehaviour
             | Some pos \<Rightarrow>
                (case deref h1 pos of Inl e \<Rightarrow> Inl e
                 | Inr pn \<Rightarrow>
                    (case update_node h1 pNew (\<lambda>n. n\<lparr>pPrev := pPrev pn\<rparr>) of Inl e \<Rightarrow> Inl e
                     | Inr h2 \<Rightarrow>
                        (case update_node h2 pNew (\<lambda>n. n\<lparr>pNext := Some pos\<rparr>) of Inl e \<Rightarrow> Inl e
                         | Inr h3 \<Rightarrow>
                            (case insert_link_prev h3 l pNew of Inl e \<Rightarrow> Inl e
                             | Inr (h4, l1) \<Rightarrow>
                                (case insert_link_next h4 l1 pNew of Inl e \<Rightarrow> Inl e
                                 | Inr (h5, l2) \<Rightarrow>
                                     Inr (h5, l2\<lparr>numElements := numElements l2 + 1\<rparr>,
                                          Iterator (Some pNew)))))))))
      else Inl UndefinedBehaviour)"

section \<open>Loops that release or allocate nodes\<close>

text \<open>
  The number of nodes alive bounds every loop that deletes one node per round, and the
  room left in the store bounds every loop that allocates one node per round.
\<close>

definition live :: "'a heap \<Rightarrow> nat" where
  "live h = length (filter (\<lambda>c. c \<noteq> None) h)"

lemma live_delete: "a < length h \<Longrightarrow> h ! a \<noteq> None \<Longrightarrow> live (h[a := None]) < live h"
  by (simp add: live_def upd_conv_take_nth_drop) (subst (2) id_take_nth_drop[of a h], simp_all)

lemma live_update: "a < length h \<Longrightarrow> h ! a \<noteq> None \<Longrightarrow> live (h[a := Some x]) = live h"
  by (simp add: live_def upd_conv_take_nth_drop) (subst (2) id_take_nth_drop[of a h], simp_all)

lemma update_node_live: "update_node h a f = Inr h1 \<Longrightarrow> live h1 = live h"
  by (auto simp: update_node_def lookup_def live_update split: option.splits if_splits)

lemma delete_Node_live: "delete_Node h a = Inr h1 \<Longrightarrow> live h1 < live h"
  by (auto simp: delete_Node_def lookup_def live_delete split: option.splits if_splits)

lemma erase_unlink_prev_live: "erase_unlink_prev h l a = Inr (h1, l1) \<Longrightarrow> live h1 = live h"
  by (auto simp: erase_unlink_prev_def update_node_live split: sum.splits option.splits if_splits)

lemma erase_unlink_next_live: "erase_unlink_next h l a = Inr (h1, l1) \<Longrightarrow> live h1 = live h"
  by (auto simp: erase_unlink_next_def update_node_live split: sum.splits option.splits if_splits)

lemma erase_live:
  "erase h l it = Inr (h1, l1, it1) \<Longrightarrow> it_p it \<noteq> None \<Longrightarrow> live h1 < live h"
  by (auto simp: erase_def Let_def split: sum.splits option.splits prod.splits
           dest!: erase_unlink_prev_live erase_unlink_next_live delete_Node_live)

lemma push_back_length:
  "push_back h l v = Inr (h1, l1) \<Longrightarrow> length h < max_nodes \<and> length h1 = Suc (length h)"
  by (auto simp: push_back_def new_Node_def update_node_def
           split: sum.splits option.splits prod.splits if_splits)

text \<open>
  \<^verbatim>\<open>clear\<close>: the loop walks \<^verbatim>\<open>pHead\<close> along the \<^verbatim>\<open>pNext\<close> links, deleting each node
  and decrementing the count; \<^verbatim>\<open>pTail\<close> is reset after the loop.
\<close>

function clear_loop :: "'a heap \<Rightarrow> custom_list \<Rightarrow> error + ('a heap \<times> custom_list)" where
  "clear_loop h l =
     (case pHead l of
        None \<Rightarrow> Inr (h, l)
      | Some pDelete \<Rightarrow>
         (case deref h pDelete of Inl e \<Rightarrow> Inl e
          | Inr n \<Rightarrow>
             (case delete_Node h pDelete of Inl e \<Rightarrow> Inl e
              | Inr h1 \<Rightarrow>
                  clear_loop h1 (l\<lparr>pHead := pNext n, numElements := numElements l - 1\<rparr>))))"
  by pat_completeness auto
termination
  by (relation "measure (\<lambda>(h, l). live h)") (auto dest: delete_Node_live)

declare clear_loop.simps [simp del]

definition clear :: "'a heap \<Rightarrow> custom_list \<Rightarrow> error + ('a heap \<times> custom_list)" where
  "clear h l =
     (case clear_loop h l of Inl e \<Rightarrow> Inl e | Inr (h1, l1) \<Rightarrow> Inr (h1, l1\<lparr>pTail := None\<rparr>))"

text \<open>\<^verbatim>\<open>while (itLhs.p) itLhs = erase(itLhs);\<close>, the trimming loop of all three assignments.\<close>

function erase_loop ::
  "'a heap \<Rightarrow> custom_list \<Rightarrow> iterator \<Rightarrow> error + ('a heap \<times> custom_list \<times> iterator)" where
  "erase_loop h l itLhs =
     (if it_p itLhs \<noteq> None then
        (case erase h l itLhs of Inl e \<Rightarrow> Inl e
         | Inr (h1, l1, itLhs1) \<Rightarrow> erase_loop h1 l1 itLhs1)
      else Inr (h, l, itLhs))"
  by pat_completeness auto
termination
  by (relation "measure (\<lambda>(h, l, it). live h)") (auto dest: erase_live)

declare erase_loop.simps [simp del]

lemma erase_loop_end [simp]: "erase_loop h l (Iterator None) = Inr (h, l, Iterator None)"
  by (subst erase_loop.simps) simp

lemma erase_loop_step [simp]:
  "erase_loop h l (Iterator (Some a)) =
     (case erase h l (Iterator (Some a)) of Inl e \<Rightarrow> Inl e
      | Inr (h1, l1, itLhs1) \<Rightarrow> erase_loop h1 l1 itLhs1)"
  by (subst erase_loop.simps) simp

text \<open>
  \<^verbatim>\<open>while (itRhs != rhs.end()) { push_back(*itRhs); ++itRhs; }\<close>, the appending loop of
  the copy and move assignments. In the move assignment the argument of \<^verbatim>\<open>push_back\<close> is
  \<^verbatim>\<open>std::move(*itRhs)\<close>, but \<^verbatim>\<open>push_back(T &&)\<close> copy-constructs the node from its
  named parameter, so the source element keeps its value there as well.
\<close>

function append_loop ::
  "'a heap \<Rightarrow> custom_list \<Rightarrow> custom_list \<Rightarrow> iterator \<Rightarrow> error + ('a heap \<times> custom_list \<times> iterator)" where
  "append_loop h l rhs itRhs =
     (if itRhs \<noteq> end_l rhs then
        (case iter_deref itRhs of Inl e \<Rightarrow> Inl e
         | Inr src \<Rightarrow>
            (case get_ref h src of Inl e \<Rightarrow> Inl e
             | Inr v \<Rightarrow>
                (case push_back h l v of Inl e \<Rightarrow> Inl e
                 | Inr (h1, l1) \<Rightarrow>
                    (case iter_inc h1 itRhs of Inl e \<Rightarrow> Inl e
                     | Inr (itRhs1, r) \<Rightarrow> append_loop h1 l1 rhs itRhs1))))
      else Inr (h, l, itRhs))"
  by pat_completeness auto
termination
  by (relation "measure (\<lambda>(h, l, rhs, it). max_nodes - length h)")
     (auto dest!: push_back_length)

declare append_loop.simps [simp del]

lemma append_loop_end [simp]: "append_loop h l rhs (Iterator None) = Inr (h, l, Iterator None)"
  by (subst append_loop.simps) (simp add: end_l_def)

section \<open>Assignment\<close>

text \<open>
  The lock-step loop of the copy assignment,
  \<^verbatim>\<open>while (itRhs != rhs.end() && itLhs != end()) { *itLhs = *itRhs; ++itLhs; ++itRhs; }\<close>.
  It neither allocates nor releases, so on a store whose links form a cycle it never
  ends: the result \<open>None\<close> stands for a run that does not return.
\<close>

partial_function (option) assign_copy_loop ::
  "'a heap \<Rightarrow> custom_list \<Rightarrow> custom_list \<Rightarrow> iterator \<Rightarrow> iterator \<Rightarrow>
     (error + ('a heap \<times> iterator \<times> iterator)) option" where
  "assign_copy_loop h lhs rhs itRhs itLhs =
     (if itRhs \<noteq> end_l rhs \<and> itLhs \<noteq> end_l lhs then
        (case iter_deref itLhs of Inl e \<Rightarrow> Some (Inl e)
         | Inr dst \<Rightarrow>
            (case iter_deref itRhs of Inl e \<Rightarrow> Some (Inl e)
             | Inr src \<Rightarrow>
                (case get_ref h src of Inl e \<Rightarrow> Some (Inl e)
                 | Inr v \<Rightarrow>
                    (case set_ref h dst v of Inl e \<Rightarrow> Some (Inl e)
                     | Inr h1 \<Rightarrow>
                        (case iter_inc h1 itLhs of Inl e \<Rightarrow> Some (Inl e)
                         | Inr (itLhs1, r1) \<Rightarrow>
                            (case iter_inc h1 itRhs of Inl e \<Rightarrow> Some (Inl e)
                             | Inr (itRhs1, r2) \<Rightarrow>
                                 assign_copy_loop h1 lhs rhs itRhs1 itLhs1))))))
      else Some (Inr (h, itRhs, itLhs)))"

declare assign_copy_loop.simps [code]

text \<open>
  \<^verbatim>\<open>operator = (list & rhs)\<close>. The result is the store and the assigned-to list object;
  the object \<open>rhs\<close> itself is never written.
\<close>

definition assign_copy ::
  "'a heap \<Rightarrow> custom_list \<Rightarrow> custom_list \<Rightarrow> (error + ('a heap \<times> custom_list)) option" where
  "assign_copy h lhs rhs =
     (case assign_copy_loop h lhs rhs (begin_l rhs) (begin_l lhs) of
        None \<Rightarrow> None
      | Some (Inl e) \<Rightarrow> Some (Inl e)
      | Some (Inr (h1, itRhs, itLhs)) \<Rightarrow>
          Some (if itRhs \<noteq> end_l rhs then
                  (case append_loop h1 lhs rhs itRhs of Inl e \<Rightarrow> Inl e
                   | Inr (h2, lhs1, it) \<Rightarrow> Inr (h2, lhs1))
                else if empty_l rhs then clear h1 lhs
                else if itLhs \<noteq> end_l lhs then
                  (case erase_loop h1 lhs itLhs of Inl e \<Rightarrow> Inl e
                   | Inr (h2, lhs1, it) \<Rightarrow> Inr (h2, lhs1))
                else Inr (h1, lhs)))"

text \<open>
  The move assignment has the same three phases. Its lock-step loop assigns with
  \<^verbatim>\<open>*itLhs = std::move(*itRhs)\<close>, the move assignment of the element type \<^verbatim>\<open>T\<close>, which
  is not part of this repository. It is taken to give the destination the value \<open>v\<close> of
  its source; \<open>moved d v\<close> is the value it leaves in the source when the destination held
  \<open>d\<close>: \<open>v\<close> itself for \<^verbatim>\<open>int\<close> and every other trivially copyable type, an emptied
  value for a type that hands over its resources, \<open>d\<close> for a type that moves by swapping.
\<close>

partial_function (option) assign_move_loop ::
  "('a \<Rightarrow> 'a \<Rightarrow> 'a) \<Rightarrow> 'a heap \<Rightarrow> custom_list \<Rightarrow> custom_list \<Rightarrow> iterator \<Rightarrow> iterator \<Rightarrow>
     (error + ('a heap \<times> iterator \<times> iterator)) option" where
  "assign_move_loop moved h lhs rhs itRhs itLhs =
     (if itRhs \<noteq> end_l rhs \<and> itLhs \<noteq> end_l lhs then
        (case iter_deref itLhs of Inl e \<Rightarrow> Some (Inl e)
         | Inr dst \<Rightarrow>
            (case iter_deref itRhs of Inl e \<Rightarrow> Some (Inl e)
             | Inr src \<Rightarrow>
                (case get_ref h src of Inl e \<Rightarrow> Some (Inl e)
                 | Inr v \<Rightarrow>
                    (case get_ref h dst of Inl e \<Rightarrow> Some (Inl e)
                     | Inr d \<Rightarrow>
                        (case set_ref h dst v of Inl e \<Rightarrow> Some (Inl e)
                         | Inr h1 \<Rightarrow>
                            (case set_ref h1 src (moved d v) of Inl e \<Rightarrow> Some (Inl e)
                             | Inr h2 \<Rightarrow>
                                (case iter_inc h2 itLhs of Inl e \<Rightarrow> Some (Inl e)
                                 | Inr (itLhs1, r1) \<Rightarrow>
                                    (case iter_inc h2 itRhs of Inl e \<Rightarrow> Some (Inl e)
                                     | Inr (itRhs1, r2) \<Rightarrow>
                                         assign_move_loop moved h2 lhs rhs itRhs1 itLhs1))))))))
      else Some (Inr (h, itRhs, itLhs)))"

declare assign_move_loop.simps [code]

definition assign_move ::
  "('a \<Rightarrow> 'a \<Rightarrow> 'a) \<Rightarrow> 'a heap \<Rightarrow> custom_list \<Rightarrow> custom_list \<Rightarrow>
     (error + ('a heap \<times> custom_list)) option" where
  "assign_move moved h lhs rhs =
     (case assign_move_loop moved h lhs rhs (begin_l rhs) (begin_l lhs) of
        None \<Rightarrow> None
      | Some (Inl e) \<Rightarrow> Some (Inl e)
      | Some (Inr (h1, itRhs, itLhs)) \<Rightarrow>
          Some (if itRhs \<noteq> end_l rhs then
                  (case append_loop h1 lhs rhs itRhs of Inl e \<Rightarrow> Inl e
                   | Inr (h2, lhs1, it) \<Rightarrow> Inr (h2, lhs1))
                else if empty_l rhs then clear h1 lhs
                else if itLhs \<noteq> end_l lhs then
                  (case erase_loop h1 lhs itLhs of Inl e \<Rightarrow> Inl e
                   | Inr (h2, lhs1, it) \<Rightarrow> Inr (h2, lhs1))
                else Inr (h1, lhs)))"

text \<open>
  \<^verbatim>\<open>operator = (const std::initializer_list<T> & rhs)\<close>: one round of the range-for
  loop per item of the literal, then the trimming loop.
\<close>

fun assign_il_loop ::
  "'a heap \<Rightarrow> custom_list \<Rightarrow> iterator \<Rightarrow> 'a list \<Rightarrow> error + ('a heap \<times> custom_list \<times> iterator)" where
  "assign_il_loop h l itLhs [] = Inr (h, l, itLhs)"
| "assign_il_loop h l itLhs (item # rest) =
     (case (if itLhs = end_l l then push_back h l item
            else (case iter_deref itLhs of Inl e \<Rightarrow> Inl e
                  | Inr dst \<Rightarrow>
                     (case set_ref h dst item of Inl e \<Rightarrow> Inl e | Inr h1 \<Rightarrow> Inr (h1, l)))) of
        Inl e \<Rightarrow> Inl e
      | Inr (h1, l1) \<Rightarrow>
         (case iter_inc_post h1 itLhs of Inl e \<Rightarrow> Inl e
          | Inr (itLhs1, r) \<Rightarrow> assign_il_loop h1 l1 itLhs1 rest))"

definition assign_il :: "'a heap \<Rightarrow> custom_list \<Rightarrow> 'a list \<Rightarrow> error + ('a heap \<times> custom_list)" where
  "assign_il h l il =
     (case assign_il_loop h l (begin_l l) il of Inl e \<Rightarrow> Inl e
      | Inr (h1, l1, itLhs) \<Rightarrow>
          if itLhs \<noteq> end_l l1 then
            (case erase_loop h1 l1 itLhs of Inl e \<Rightarrow> Inl e
             | Inr (h2, l2, it) \<Rightarrow> Inr (h2, l2))
          else Inr (h1, l1))"

section \<open>Construction and swap\<close>

text \<open>
  The constructors from an initializer list and from a pair of source iterators run the
  same loop, \<^verbatim>\<open>push_back(*it)\<close> for every element of the source in order; the source
  range is given as the sequence of its elements.
\<close>

primrec push_all :: "'a heap \<Rightarrow> custom_list \<Rightarrow> 'a list \<Rightarrow> error + ('a heap \<times> custom_list)" where
  "push_all h l [] = Inr (h, l)"
| "push_all h l (v # vs) =
     (case push_back h l v of Inl e \<Rightarrow> Inl e | Inr (h1, l1) \<Rightarrow> push_all h1 l1 vs)"

definition list_il :: "'a heap \<Rightarrow> 'a list \<Rightarrow> error + ('a heap \<times> custom_list)" where
  "list_il h il = push_all h list_default il"

definition list_range :: "'a heap \<Rightarrow> 'a list \<Rightarrow> error + ('a heap \<times> custom_list)" where
  "list_range h elems = push_all h list_default elems"

text \<open>
  \<^verbatim>\<open>list(size_t num, const T & t)\<close>. The loop counter is an \<^verbatim>\<open>int\<close>: for \<open>num\<close> above
  \<^verbatim>\<open>INT_MAX\<close> the increment overflows after \<open>2 ^ 31\<close> rounds, which is undefined.
  \<^verbatim>\<open>list(size_t num)\<close> is the same loop with a default-constructed \<open>t\<close>.
\<close>

definition list_fill :: "'a heap \<Rightarrow> 64 word \<Rightarrow> 'a \<Rightarrow> error + ('a heap \<times> custom_list)" where
  "list_fill h num t =
     (if unat num \<le> 2 ^ 31 - 1 then push_all h list_default (replicate (unat num) t)
      else (case push_all h list_default (replicate (2 ^ 31) t) of Inl e \<Rightarrow> Inl e
            | Inr r \<Rightarrow> Inl UndefinedBehaviour))"

text \<open>The copy constructor starts empty and assigns.\<close>

definition list_copy :: "'a heap \<Rightarrow> custom_list \<Rightarrow> (error + ('a heap \<times> custom_list)) option" where
  "list_copy h rhs = assign_copy h list_default rhs"

text \<open>The move constructor: the pair is the new list and the source after the call.\<close>

definition list_move :: "custom_list \<Rightarrow> custom_list \<times> custom_list" where
  "list_move rhs =
     (\<lparr>numElements = numElements rhs, pHead = pHead rhs, pTail = pTail rhs\<rparr>,
      rhs\<lparr>pHead := None, pTail := None, numElements := 0\<rparr>)"

text \<open>\<^verbatim>\<open>swap\<close>, member and free function alike: the three members change places.\<close>

definition swap_l :: "custom_list \<Rightarrow> custom_list \<Rightarrow> custom_list \<times> custom_list" where
  "swap_l lhs rhs =
     (lhs\<lparr>pHead := pHead rhs, pTail := pTail rhs, numElements := numElements rhs\<rparr>,
      rhs\<lparr>pHead := pHead lhs, pTail := pTail lhs, numElements := numElements lhs\<rparr>)"

section \<open>Traversal by a caller\<close>

text \<open>
  The loops a caller writes to read a list:
  \<^verbatim>\<open>for (it = l.begin(); it != l.end(); ++it) out.push_back(*it);\<close> and, from the back,
  \<^verbatim>\<open>for (it = l.rbegin(); it != l.end(); --it) out.push_back(*it);\<close>.
\<close>

partial_function (option) iterate_forward ::
  "'a heap \<Rightarrow> custom_list \<Rightarrow> iterator \<Rightarrow> 'a list \<Rightarrow> (error + 'a list) option" where
  "iterate_forward h l it out =
     (if it \<noteq> end_l l then
        (case iter_deref it of Inl e \<Rightarrow> Some (Inl e)
         | Inr r \<Rightarrow>
            (case get_ref h r of Inl e \<Rightarrow> Some (Inl e)
             | Inr v \<Rightarrow>
                (case iter_inc h it of Inl e \<Rightarrow> Some (Inl e)
                 | Inr (it1, r1) \<Rightarrow> iterate_forward h l it1 (out @ [v]))))
      else Some (Inr out))"

declare iterate_forward.simps [code]

partial_function (option) iterate_backward ::
  "'a heap \<Rightarrow> custom_list \<Rightarrow> iterator \<Rightarrow> 'a list \<Rightarrow> (error + 'a list) option" where
  "iterate_backward h l it out =
     (if it \<noteq> end_l l then
        (case iter_deref it of Inl e \<Rightarrow> Some (Inl e)
         | Inr r \<Rightarrow>
            (case get_ref h r of Inl e \<Rightarrow> Some (Inl e)
             | Inr v \<Rightarrow>
                (case iter_dec h it of Inl e \<Rightarrow> Some (Inl e)
                 | Inr (it1, r1) \<Rightarrow> iterate_backward h l it1 (out @ [v]))))
      else Some (Inr out))"

declare iterate_backward.simps [code]

section \<open>Well-formed lists\<close>

text \<open>
  \<open>dlseg h pr p ns nx\<close>: starting at pointer \<open>p\<close>, the nodes at the addresses of
  \<open>ns\<close> are alive, hold the values of \<open>ns\<close>, and are chained in this order by their
  \<^verbatim>\<open>pNext\<close> links up to \<open>nx\<close> and by their \<^verbatim>\<open>pPrev\<close> links back to \<open>pr\<close>.
  \<open>dll h l ns\<close>: the list object \<open>l\<close> owns exactly this chain, from \<^verbatim>\<open>pHead\<close> to
  \<^verbatim>\<open>pTail\<close> with null at both ends, and counts its nodes.
\<close>

fun dlseg :: "'a heap \<Rightarrow> addr option \<Rightarrow> addr option \<Rightarrow> (addr \<times> 'a) list \<Rightarrow> addr option \<Rightarrow> bool" where
  "dlseg h pr p [] nx = (p = nx)"
| "dlseg h pr p ((a, v) # ns) nx =
     (p = Some a \<and>
      (case lookup h a of None \<Rightarrow> False
       | Some n \<Rightarrow> data n = v \<and> pPrev n = pr \<and> dlseg h (Some a) (pNext n) ns nx))"

definition first_ptr :: "(addr \<times> 'a) list \<Rightarrow> addr option \<Rightarrow> addr option" where
  "first_ptr ns nx = (case ns of [] \<Rightarrow> nx | (a, v) # ms \<Rightarrow> Some a)"

definition last_ptr :: "addr option \<Rightarrow> (addr \<times> 'a) list \<Rightarrow> addr option" where
  "last_ptr pr ns = (if ns = [] then pr else Some (fst (last ns)))"

definition dll :: "'a heap \<Rightarrow> custom_list \<Rightarrow> (addr \<times> 'a) list \<Rightarrow> bool" where
  "dll h l ns =
     (dlseg h None (pHead l) ns None \<and> pTail l = last_ptr None ns \<and>
      numElements l = of_nat (length ns) \<and> distinct (map fst ns))"

definition heap_ok :: "'a heap \<Rightarrow> bool" where
  "heap_ok h = (length h \<le> max_nodes)"

lemma lookup_update: "lookup (h[a := x]) b = (if b = a \<and> a < length h then x else lookup h b)"
  by (simp add: lookup_def)

lemma lookup_append1: "lookup (h @ [x]) b = (if b = length h then x else lookup h b)"
  by (simp add: lookup_def nth_append)

lemma lookup_Some_less: "lookup h a = Some n \<Longrightarrow> a < length h"
  by (simp add: lookup_def split: if_splits)

lemma deref_Some: "lookup h a = Some n \<Longrightarrow> deref h a = Inr n"
  by (simp add: deref_def)

lemma update_node_Some: "lookup h a = Some n \<Longrightarrow> update_node h a f = Inr (h[a := Some (f n)])"
  by (simp add: update_node_def)

lemma delete_Node_Some: "lookup h a = Some n \<Longrightarrow> delete_Node h a = Inr (h[a := None])"
  by (simp add: delete_Node_def)

lemma first_ptr_simps:
  "first_ptr [] nx = nx" "first_ptr ((a, v) # ms) nx = Some a"
  by (simp_all add: first_ptr_def)

lemma last_ptr_simps:
  "last_ptr pr [] = pr" "last_ptr pr (ms @ [(a, v)]) = Some a"
  "last_ptr pr ((a, v) # ms) = last_ptr (Some a) ms"
  by (simp_all add: last_ptr_def)

lemma dlseg_first: "dlseg h pr p ns nx \<Longrightarrow> p = first_ptr ns nx"
  by (cases ns) (auto simp: first_ptr_def)

lemma dlseg_append:
  "dlseg h pr p (xs @ ys) nx =
     (dlseg h pr p xs (first_ptr ys nx) \<and> dlseg h (last_ptr pr xs) (first_ptr ys nx) ys nx)"
proof (induction xs arbitrary: pr p)
  case Nil
  then show ?case by (auto simp: last_ptr_simps dest: dlseg_first)
next
  case (Cons x xs)
  obtain a v where x: "x = (a, v)" by (cases x)
  show ?case
    by (simp add: x Cons.IH last_ptr_simps split: option.splits)
qed

lemma dlseg_frame:
  "\<forall>a \<in> fst ` set ns. lookup h' a = lookup h a \<Longrightarrow> dlseg h' pr p ns nx = dlseg h pr p ns nx"
  by (induction ns arbitrary: pr p) (auto split: option.splits)

lemma dlseg_live: "dlseg h pr p ns nx \<Longrightarrow> \<forall>a \<in> fst ` set ns. a < length h"
  by (induction ns arbitrary: pr p) (fastforce split: option.splits dest: lookup_Some_less)+

lemma dll_length_le:
  assumes "dll h l ns" shows "length ns \<le> length h"
proof -
  have d: "distinct (map fst ns)" using assms by (simp add: dll_def)
  have "set (map fst ns) \<subseteq> {..<length h}"
    using assms dlseg_live[of h None "pHead l" ns None] by (auto simp: dll_def)
  then have "card (set (map fst ns)) \<le> card {..<length h}"
    by (intro card_mono) auto
  then show ?thesis using distinct_card[OF d] by simp
qed

lemma dll_empty_iff:
  assumes "dll h l ns" "heap_ok h"
  shows "empty_l l = (ns = [])"
proof -
  have "length ns \<le> max_nodes" using dll_length_le[OF assms(1)] assms(2) by (simp add: heap_ok_def)
  then have lt: "length ns < 2 ^ 64" by (simp add: max_nodes_def)
  have "numElements l = of_nat (length ns)" using assms(1) by (simp add: dll_def)
  then have "(numElements l = 0) = (length ns = 0)"
    using lt of_nat_neq_0[of "length ns", where 'a=64] by auto
  then show ?thesis by (simp add: empty_l_def size_l_def)
qed


definition frame :: "addr set \<Rightarrow> 'a heap \<Rightarrow> 'a heap \<Rightarrow> bool" where
  "frame S h h' = (length h \<le> length h' \<and> (\<forall>b. b < length h \<and> b \<notin> S \<longrightarrow> lookup h' b = lookup h b))"

lemma dlseg_lookup_last:
  "dlseg h pr p (xs @ [(x, xv)]) q \<Longrightarrow> \<exists>m. lookup h x = Some m \<and> data m = xv \<and> pNext m = q \<and> pPrev m = last_ptr pr xs"
  by (auto simp: dlseg_append first_ptr_simps split: option.splits)

lemma dlseg_set_next:
  assumes "dlseg h pr p (xs @ [(x, xv)]) q" "x \<notin> fst ` set xs" "lookup h x = Some m"
  shows "dlseg (h[x := Some (m\<lparr>pNext := q'\<rparr>)]) pr p (xs @ [(x, xv)]) q'"
proof -
  let ?h = "h[x := Some (m\<lparr>pNext := q'\<rparr>)]"
  have xl: "x < length h" using assms(3) by (rule lookup_Some_less)
  have "\<forall>a \<in> fst ` set xs. lookup ?h a = lookup h a"
    using assms(2) by (auto simp: lookup_update)
  then have "dlseg ?h pr p xs (Some x) = dlseg h pr p xs (Some x)"
    by (rule dlseg_frame)
  then show ?thesis
    using assms xl by (simp add: dlseg_append first_ptr_simps lookup_update)
qed

lemma dlseg_set_prev:
  assumes "dlseg h pr p ((y, yv) # ys) q" "y \<notin> fst ` set ys" "lookup h y = Some m"
  shows "dlseg (h[y := Some (m\<lparr>pPrev := pr'\<rparr>)]) pr' p ((y, yv) # ys) q"
proof -
  let ?h = "h[y := Some (m\<lparr>pPrev := pr'\<rparr>)]"
  have yl: "y < length h" using assms(3) by (rule lookup_Some_less)
  have "\<forall>a \<in> fst ` set ys. lookup ?h a = lookup h a"
    using assms(2) by (auto simp: lookup_update)
  then have "dlseg ?h (Some y) (pNext m) ys q = dlseg h (Some y) (pNext m) ys q"
    by (rule dlseg_frame)
  then show ?thesis
    using assms yl by (simp add: lookup_update)
qed

lemma erase_unlink_prev_spec:
  assumes seg: "dlseg h None (pHead l) xs (Some a)"
    and n: "lookup h a = Some n" "pPrev n = last_ptr None xs"
    and d: "distinct (map fst xs)" "a \<notin> fst ` set xs"
  shows "\<exists>h1 l1. erase_unlink_prev h l a = Inr (h1, l1) \<and>
           dlseg h1 None (pHead l1) xs (pNext n) \<and> lookup h1 a = Some n \<and>
           pTail l1 = pTail l \<and> numElements l1 = numElements l \<and> length h1 = length h \<and>
           (\<forall>b. b \<notin> fst ` set xs \<longrightarrow> lookup h1 b = lookup h b)"
proof (cases xs rule: rev_cases)
  case Nil
  then show ?thesis using seg n
    by (simp add: erase_unlink_prev_def deref_Some last_ptr_simps)
next
  case (snoc xs' xx)
  obtain x xv where xx: "xx = (x, xv)" by (cases xx)
  have xs: "xs = xs' @ [(x, xv)]" using snoc xx by simp
  obtain m where m: "lookup h x = Some m"
    using seg dlseg_lookup_last[of h None "pHead l" xs' x xv "Some a"] xs by auto
  have xa: "x \<noteq> a" using d(2) xs by auto
  have xn: "x \<notin> fst ` set xs'" using d(1) xs by auto
  have "dlseg h None (pHead l) (xs' @ [(x, xv)]) (Some a)" using seg xs by simp
  from dlseg_set_next[OF this xn m]
  have "dlseg (h[x := Some (m\<lparr>pNext := pNext n\<rparr>)]) None (pHead l) xs (pNext n)"
    using xs by simp
  then show ?thesis using n m xa xs
    by (auto simp: erase_unlink_prev_def deref_Some last_ptr_simps update_node_Some lookup_update)
qed

lemma erase_unlink_next_spec:
  assumes seg: "dlseg h (Some a) (pNext n) ys None"
    and n: "lookup h a = Some n"
    and t: "pTail l = last_ptr (Some a) ys"
    and d: "distinct (map fst ys)" "a \<notin> fst ` set ys"
  shows "\<exists>h2 l2. erase_unlink_next h l a = Inr (h2, l2) \<and>
           dlseg h2 (pPrev n) (pNext n) ys None \<and> lookup h2 a = Some n \<and>
           pTail l2 = last_ptr (pPrev n) ys \<and>
           pHead l2 = pHead l \<and> numElements l2 = numElements l \<and> length h2 = length h \<and>
           (\<forall>b. b \<notin> fst ` set ys \<longrightarrow> lookup h2 b = lookup h b)"
proof (cases ys)
  case Nil
  then show ?thesis using seg n t
    by (simp add: erase_unlink_next_def deref_Some last_ptr_simps)
next
  case (Cons yy ys')
  obtain y yv where yy: "yy = (y, yv)" by (cases yy)
  have ys: "ys = (y, yv) # ys'" using Cons yy by simp
  have py: "pNext n = Some y" using seg ys by simp
  obtain m where m: "lookup h y = Some m"
    using seg ys by (auto split: option.splits)
  have ya: "y \<noteq> a" using d(2) ys by auto
  have yn: "y \<notin> fst ` set ys'" using d(1) ys by auto
  have "dlseg h (Some a) (pNext n) ((y, yv) # ys') None" using seg ys by simp
  from dlseg_set_prev[OF this yn m]
  have "dlseg (h[y := Some (m\<lparr>pPrev := pPrev n\<rparr>)]) (pPrev n) (pNext n) ys None"
    using ys by simp
  then show ?thesis using n m ya ys py t
    by (auto simp: erase_unlink_next_def deref_Some last_ptr_simps update_node_Some lookup_update)
qed


lemma last_ptr_append: "last_ptr pr (xs @ ys) = last_ptr (last_ptr pr xs) ys"
  by (simp add: last_ptr_def)

lemma first_ptr_append: "first_ptr (xs @ ys) nx = first_ptr xs (first_ptr ys nx)"
  by (cases xs) (auto simp: first_ptr_def)

lemma erase_spec:
  assumes wf: "dll h l (xs @ (a, v) # ys)"
  shows "\<exists>h' l'. erase h l (Iterator (Some a)) = Inr (h', l', Iterator (first_ptr ys None)) \<and>
           dll h' l' (xs @ ys) \<and> numElements l' = numElements l - 1 \<and>
           lookup h' a = None \<and> length h' = length h \<and>
           (\<forall>b. b \<notin> fst ` set (xs @ (a, v) # ys) \<longrightarrow> lookup h' b = lookup h b)"
proof -
  have dis: "distinct (map fst xs)" "distinct (map fst ys)" "a \<notin> fst ` set xs"
    "a \<notin> fst ` set ys" "fst ` set xs \<inter> fst ` set ys = {}"
    using wf by (auto simp: dll_def)
  have segx: "dlseg h None (pHead l) xs (Some a)"
    and sega: "dlseg h (last_ptr None xs) (Some a) ((a, v) # ys) None"
    using wf by (simp_all add: dll_def dlseg_append first_ptr_simps)
  obtain n where n: "lookup h a = Some n" "data n = v" "pPrev n = last_ptr None xs"
    and segy: "dlseg h (Some a) (pNext n) ys None"
    using sega by (auto split: option.splits)
  have nx: "pNext n = first_ptr ys None" using segy by (rule dlseg_first)
  have tl: "pTail l = last_ptr (Some a) ys"
    using wf by (simp add: dll_def last_ptr_append last_ptr_simps)
  obtain h1 l1 where s1: "erase_unlink_prev h l a = Inr (h1, l1)"
    "dlseg h1 None (pHead l1) xs (pNext n)" "lookup h1 a = Some n"
    "pTail l1 = pTail l" "numElements l1 = numElements l" "length h1 = length h"
    "\<forall>b. b \<notin> fst ` set xs \<longrightarrow> lookup h1 b = lookup h b"
    using erase_unlink_prev_spec[OF segx n(1) n(3) dis(1) dis(3)] by blast
  have "\<forall>b \<in> fst ` set ys. lookup h1 b = lookup h b" using s1(7) dis(5) by auto
  then have segy1: "dlseg h1 (Some a) (pNext n) ys None"
    using segy dlseg_frame[of ys h1 h] by simp
  obtain h2 l2 where s2: "erase_unlink_next h1 l1 a = Inr (h2, l2)"
    "dlseg h2 (pPrev n) (pNext n) ys None" "lookup h2 a = Some n"
    "pTail l2 = last_ptr (pPrev n) ys" "pHead l2 = pHead l1" "numElements l2 = numElements l1"
    "length h2 = length h1" "\<forall>b. b \<notin> fst ` set ys \<longrightarrow> lookup h2 b = lookup h1 b"
    using erase_unlink_next_spec[OF segy1 s1(3) _ dis(2) dis(4), of l1] s1(4) tl by auto
  have "\<forall>b \<in> fst ` set xs. lookup h2 b = lookup h1 b" using s2(8) dis(5) by auto
  then have segx2: "dlseg h2 None (pHead l2) xs (pNext n)"
    using s1(2) s2(5) dlseg_frame[of xs h2 h1] by simp
  let ?h3 = "h2[a := None]"
  let ?l3 = "l2\<lparr>numElements := numElements l2 - 1\<rparr>"
  have al: "a < length h2" using s2(3) by (rule lookup_Some_less)
  have fx: "\<forall>b \<in> fst ` set xs. lookup ?h3 b = lookup h2 b"
    and fy: "\<forall>b \<in> fst ` set ys. lookup ?h3 b = lookup h2 b"
    using dis(3,4) by (auto simp: lookup_update)
  have seg3: "dlseg ?h3 None (pHead ?l3) (xs @ ys) None"
    using segx2 s2(2) n(3) nx dlseg_frame[OF fx] dlseg_frame[OF fy]
    by (simp add: dlseg_append)
  have res: "erase h l (Iterator (Some a)) = Inr (?h3, ?l3, Iterator (first_ptr ys None))"
    using s1(1) s2(1) s2(3) nx
    by (simp add: erase_def deref_Some delete_Node_Some split: option.splits)
  have cnt: "numElements ?l3 = of_nat (length (xs @ ys))"
    using wf s1(5) s2(6) by (simp add: dll_def)
  have "dll ?h3 ?l3 (xs @ ys)"
    using seg3 cnt s2(4) n(3) dis by (simp add: dll_def last_ptr_append)
  moreover have "numElements ?l3 = numElements l - 1" using s1(5) s2(6) by simp
  moreover have "lookup ?h3 a = None" using al by (simp add: lookup_update)
  moreover have "length ?h3 = length h" using s1(6) s2(7) by simp
  moreover have "\<forall>b. b \<notin> fst ` set (xs @ (a, v) # ys) \<longrightarrow> lookup ?h3 b = lookup h b"
    using s1(7) s2(8) by (simp add: lookup_update image_Un)
  ultimately show ?thesis using res by blast
qed

lemma dll_set_data:
  assumes wf: "dll h l (xs @ (a, v) # ys)"
  shows "\<exists>n. lookup h a = Some n \<and> data n = v \<and>
           set_ref h a w = Inr (h[a := Some (n\<lparr>data := w\<rparr>)]) \<and>
           dll (h[a := Some (n\<lparr>data := w\<rparr>)]) l (xs @ (a, w) # ys)"
proof -
  have dis: "a \<notin> fst ` set xs" "a \<notin> fst ` set ys"
    using wf by (auto simp: dll_def)
  have segx: "dlseg h None (pHead l) xs (Some a)"
    and sega: "dlseg h (last_ptr None xs) (Some a) ((a, v) # ys) None"
    using wf by (simp_all add: dll_def dlseg_append first_ptr_simps)
  obtain n where n: "lookup h a = Some n" "data n = v" "pPrev n = last_ptr None xs"
    and segy: "dlseg h (Some a) (pNext n) ys None"
    using sega by (auto split: option.splits)
  let ?h = "h[a := Some (n\<lparr>data := w\<rparr>)]"
  have al: "a < length h" using n(1) by (rule lookup_Some_less)
  have fx: "\<forall>b \<in> fst ` set xs. lookup ?h b = lookup h b"
    and fy: "\<forall>b \<in> fst ` set ys. lookup ?h b = lookup h b"
    using dis by (auto simp: lookup_update)
  have "dlseg ?h None (pHead l) (xs @ (a, w) # ys) None"
    using segx segy n al dlseg_frame[OF fx] dlseg_frame[OF fy]
    by (simp add: dlseg_append first_ptr_simps lookup_update)
  then have "dll ?h l (xs @ (a, w) # ys)"
    using wf by (simp add: dll_def last_ptr_def)
  then show ?thesis using n by (simp add: set_ref_def update_node_Some)
qed

lemma dll_lookup:
  assumes wf: "dll h l (xs @ (a, v) # ys)"
  shows "\<exists>n. lookup h a = Some n \<and> data n = v \<and> pPrev n = last_ptr None xs \<and>
              pNext n = first_ptr ys None"
proof -
  have sega: "dlseg h (last_ptr None xs) (Some a) ((a, v) # ys) None"
    using wf by (simp_all add: dll_def dlseg_append first_ptr_simps)
  then obtain n where n: "lookup h a = Some n" "data n = v" "pPrev n = last_ptr None xs"
    and segy: "dlseg h (Some a) (pNext n) ys None"
    by (auto split: option.splits)
  show ?thesis using n dlseg_first[OF segy] by simp
qed

lemma dll_head: "dll h l ns \<Longrightarrow> pHead l = first_ptr ns None"
  by (auto simp: dll_def dest: dlseg_first)

lemma dll_tail: "dll h l ns \<Longrightarrow> pTail l = last_ptr None ns"
  by (simp add: dll_def)

declare lookup_update [simp] lookup_append1 [simp]


lemma dll_live: "dll h l ns \<Longrightarrow> \<forall>a \<in> fst ` set ns. a < length h"
  by (auto simp: dll_def dest: dlseg_live)

lemma dlseg_grow:
  assumes "dlseg h pr p ns nx" shows "dlseg (h @ [c]) pr p ns nx"
proof -
  have "\<forall>a \<in> fst ` set ns. lookup (h @ [c]) a = lookup h a"
    using dlseg_live[OF assms] by (auto simp: lookup_append1)
  then show ?thesis using assms dlseg_frame[of ns "h @ [c]" h] by simp
qed

lemma push_back_spec:
  assumes wf: "dll h l ns" and room: "length h < max_nodes"
  shows "\<exists>h' l'. push_back h l v = Inr (h', l') \<and> dll h' l' (ns @ [(length h, v)]) \<and>
           length h' = Suc (length h) \<and>
           (\<forall>b. b \<notin> fst ` set ns \<and> b \<noteq> length h \<longrightarrow> lookup h' b = lookup h b)"
proof (cases ns rule: rev_cases)
  case Nil
  then have "pHead l = None" "numElements l = 0" using wf by (simp_all add: dll_def)
  then show ?thesis using Nil room
    by (simp add: push_back_def new_Node_def dll_def lookup_append1 last_ptr_def)
next
  case (snoc xs tt)
  obtain t tv where tt: "tt = (t, tv)" by (cases tt)
  have ns: "ns = xs @ [(t, tv)]" using snoc tt by simp
  let ?new = "length h"
  let ?n0 = "\<lparr>data = v, pNext = None, pPrev = None\<rparr>"
  let ?h1 = "h @ [Some ?n0]"
  let ?h2 = "?h1[?new := Some (?n0\<lparr>pPrev := Some t\<rparr>)]"
  have seg: "dlseg h None (pHead l) (xs @ [(t, tv)]) None" using wf ns by (simp add: dll_def)
  have hd: "pHead l \<noteq> None" using dlseg_first[OF seg] by (cases xs) (auto simp: first_ptr_def)
  have tl: "pTail l = Some t" using wf ns by (simp add: dll_def last_ptr_def)
  have lv: "\<forall>a \<in> fst ` set ns. a < length h" using wf by (rule dll_live)
  then have tlt: "t < length h" using ns by simp
  obtain m where m: "lookup h t = Some m" "pPrev m = last_ptr None xs" "data m = tv"
    using dlseg_lookup_last[OF seg] by auto
  have m2: "lookup ?h2 t = Some m" using m tlt by (simp add: lookup_update lookup_append1)
  let ?h3 = "?h2[t := Some (m\<lparr>pNext := Some ?new\<rparr>)]"
  have res: "push_back h l v = Inr (?h3, l\<lparr>pTail := Some ?new, numElements := numElements l + 1\<rparr>)"
    using hd room tl m2 tlt
    by (auto simp: push_back_def new_Node_def update_node_def lookup_append1)
  have tn: "t \<notin> fst ` set xs" using wf ns by (auto simp: dll_def)
  have f2: "\<forall>a \<in> fst ` set (xs @ [(t, tv)]). lookup ?h2 a = lookup h a"
    using lv ns by (auto simp: lookup_update lookup_append1)
  have "dlseg ?h2 None (pHead l) (xs @ [(t, tv)]) None"
    using seg unfolding dlseg_frame[OF f2] .
  from dlseg_set_next[OF this tn m2]
  have seg3: "dlseg ?h3 None (pHead l) (xs @ [(t, tv)]) (Some ?new)" .
  have new3: "lookup ?h3 ?new = Some \<lparr>data = v, pNext = None, pPrev = Some t\<rparr>"
    using tlt by (simp add: lookup_update lookup_append1)
  have "dlseg ?h3 None (pHead l) ((xs @ [(t, tv)]) @ [(?new, v)]) None"
    using seg3 new3 by (subst dlseg_append) (simp add: first_ptr_def last_ptr_def)
  then have "dll ?h3 (l\<lparr>pTail := Some ?new, numElements := numElements l + 1\<rparr>) (ns @ [(?new, v)])"
    using wf ns lv by (auto simp: dll_def last_ptr_def)
  moreover have "\<forall>b. b \<notin> fst ` set ns \<and> b \<noteq> ?new \<longrightarrow> lookup ?h3 b = lookup h b"
    using ns by (auto simp: lookup_update lookup_append1)
  ultimately show ?thesis using res by simp
qed

lemma dlseg_lookup_first:
  "dlseg h pr p ((y, yv) # ys) q \<Longrightarrow>
     \<exists>m. lookup h y = Some m \<and> data m = yv \<and> pPrev m = pr \<and> pNext m = first_ptr ys q"
  by (auto split: option.splits dest: dlseg_first)

lemma push_front_spec:
  assumes wf: "dll h l ns" and room: "length h < max_nodes"
  shows "\<exists>h' l'. push_front h l v = Inr (h', l') \<and> dll h' l' ((length h, v) # ns) \<and>
           length h' = Suc (length h) \<and>
           (\<forall>b. b \<notin> fst ` set ns \<and> b \<noteq> length h \<longrightarrow> lookup h' b = lookup h b)"
proof (cases ns)
  case Nil
  then have "pTail l = None" "numElements l = 0" using wf by (simp_all add: dll_def last_ptr_def)
  then show ?thesis using Nil room
    by (simp add: push_front_def new_Node_def dll_def lookup_append1 last_ptr_def)
next
  case (Cons yy ys)
  obtain y yv where yy: "yy = (y, yv)" by (cases yy)
  have ns: "ns = (y, yv) # ys" using Cons yy by simp
  let ?new = "length h"
  let ?n0 = "\<lparr>data = v, pNext = None, pPrev = None\<rparr>"
  let ?h1 = "h @ [Some ?n0]"
  let ?h2 = "?h1[?new := Some (?n0\<lparr>pNext := Some y\<rparr>)]"
  have seg: "dlseg h None (pHead l) ((y, yv) # ys) None" using wf ns by (simp add: dll_def)
  have hd: "pHead l = Some y" using seg by simp
  have tl: "pTail l \<noteq> None" using wf ns by (simp add: dll_def last_ptr_def)
  have lv: "\<forall>a \<in> fst ` set ns. a < length h" using wf by (rule dll_live)
  then have ylt: "y < length h" using ns by simp
  obtain m where m: "lookup h y = Some m"
    using dlseg_lookup_first[OF seg] by auto
  have m2: "lookup ?h2 y = Some m" using m ylt by (simp add: lookup_update lookup_append1)
  let ?h3 = "?h2[y := Some (m\<lparr>pPrev := Some ?new\<rparr>)]"
  have res: "push_front h l v = Inr (?h3, l\<lparr>pHead := Some ?new, numElements := numElements l + 1\<rparr>)"
    using hd room tl m2 ylt
    by (auto simp: push_front_def new_Node_def update_node_def lookup_append1)
  have yn: "y \<notin> fst ` set ys" using wf ns by (auto simp: dll_def)
  have f2: "\<forall>a \<in> fst ` set ((y, yv) # ys). lookup ?h2 a = lookup h a"
    using lv ns by (auto simp: lookup_update lookup_append1)
  have "dlseg h None (Some y) ((y, yv) # ys) None" using seg unfolding hd .
  then have "dlseg ?h2 None (Some y) ((y, yv) # ys) None"
    unfolding dlseg_frame[OF f2] .
  from dlseg_set_prev[OF this yn m2]
  have seg3: "dlseg ?h3 (Some ?new) (Some y) ((y, yv) # ys) None" .
  have new3: "lookup ?h3 ?new = Some \<lparr>data = v, pNext = Some y, pPrev = None\<rparr>"
    using ylt by (simp add: lookup_update lookup_append1)
  have "dlseg ?h3 None (Some ?new) ((?new, v) # (y, yv) # ys) None"
    using seg3 new3 by simp
  then have "dll ?h3 (l\<lparr>pHead := Some ?new, numElements := numElements l + 1\<rparr>) ((?new, v) # ns)"
    using wf ns lv by (auto simp: dll_def last_ptr_def)
  moreover have "\<forall>b. b \<notin> fst ` set ns \<and> b \<noteq> ?new \<longrightarrow> lookup ?h3 b = lookup h b"
    using ns by (auto simp: lookup_update lookup_append1)
  ultimately show ?thesis using res by simp
qed

lemma insert_link_prev_spec:
  assumes seg: "dlseg h None (pHead l) xs q"
    and n: "lookup h pNew = Some n" "pPrev n = last_ptr None xs"
    and d: "distinct (map fst xs)" "pNew \<notin> fst ` set xs"
  shows "\<exists>h1 l1. insert_link_prev h l pNew = Inr (h1, l1) \<and>
           dlseg h1 None (pHead l1) xs (Some pNew) \<and> lookup h1 pNew = Some n \<and>
           pTail l1 = pTail l \<and> numElements l1 = numElements l \<and> length h1 = length h \<and>
           (\<forall>b. b \<notin> fst ` set xs \<longrightarrow> lookup h1 b = lookup h b)"
proof (cases xs rule: rev_cases)
  case Nil
  then show ?thesis using seg n
    by (simp add: insert_link_prev_def deref_Some last_ptr_simps)
next
  case (snoc xs' xx)
  obtain x xv where xx: "xx = (x, xv)" by (cases xx)
  have xs: "xs = xs' @ [(x, xv)]" using snoc xx by simp
  have seg': "dlseg h None (pHead l) (xs' @ [(x, xv)]) q" using seg xs by simp
  obtain m where m: "lookup h x = Some m"
    using dlseg_lookup_last[OF seg'] by auto
  have xa: "x \<noteq> pNew" using d(2) xs by auto
  have xn: "x \<notin> fst ` set xs'" using d(1) xs by auto
  from dlseg_set_next[OF seg' xn m]
  have "dlseg (h[x := Some (m\<lparr>pNext := Some pNew\<rparr>)]) None (pHead l) xs (Some pNew)"
    using xs by simp
  then show ?thesis using n m xa xs
    by (auto simp: insert_link_prev_def deref_Some last_ptr_simps update_node_Some lookup_update)
qed

lemma insert_before_spec:
  assumes wf: "dll h l (xs @ (pos, pv) # ys)" and ok: "heap_ok h" and room: "length h < max_nodes"
  shows "\<exists>h' l'. insert_l h l (Iterator (Some pos)) v = Inr (h', l', Iterator (Some (length h))) \<and>
           dll h' l' (xs @ (length h, v) # (pos, pv) # ys) \<and> length h' = Suc (length h) \<and>
           (\<forall>b. b \<notin> fst ` set (xs @ (pos, pv) # ys) \<and> b \<noteq> length h \<longrightarrow>
                lookup h' b = lookup h b)"
proof -
  let ?new = "length h"
  let ?ns = "xs @ (pos, pv) # ys"
  have ne: "\<not> empty_l l" using dll_empty_iff[OF wf ok] by simp
  have lv: "\<forall>a \<in> fst ` set ?ns. a < length h" using wf by (rule dll_live)
  have dis: "distinct (map fst xs)" "distinct (map fst ys)" "pos \<notin> fst ` set xs"
    "pos \<notin> fst ` set ys" "fst ` set xs \<inter> fst ` set ys = {}"
    using wf by (auto simp: dll_def)
  have newx: "?new \<notin> fst ` set xs" "?new \<notin> fst ` set ys" "pos \<noteq> ?new" "pos < length h"
    using lv by fastforce+
  have segx: "dlseg h None (pHead l) xs (Some pos)"
    and segp: "dlseg h (last_ptr None xs) (Some pos) ((pos, pv) # ys) None"
    using wf by (simp_all add: dll_def dlseg_append first_ptr_simps)
  obtain pn where pn: "lookup h pos = Some pn" "data pn = pv" "pPrev pn = last_ptr None xs"
    and segy: "dlseg h (Some pos) (pNext pn) ys None"
    using segp by (auto split: option.splits)
  let ?n0 = "\<lparr>data = v, pNext = None, pPrev = None\<rparr>"
  let ?n3 = "\<lparr>data = v, pNext = Some pos, pPrev = pPrev pn\<rparr>"
  let ?h1 = "h @ [Some ?n0]"
  let ?h3 = "?h1[?new := Some ?n3]"
  have pn1: "lookup ?h1 pos = Some pn" using pn newx by (simp add: lookup_append1)
  have h3: "update_node ?h1 ?new (\<lambda>n. n\<lparr>pPrev := pPrev pn\<rparr>) = Inr (?h1[?new := Some (?n0\<lparr>pPrev := pPrev pn\<rparr>)])"
    "update_node (?h1[?new := Some (?n0\<lparr>pPrev := pPrev pn\<rparr>)]) ?new (\<lambda>n. n\<lparr>pNext := Some pos\<rparr>) = Inr ?h3"
    by (simp_all add: update_node_def lookup_append1 lookup_update)
  have fx3: "\<forall>a \<in> fst ` set xs. lookup ?h3 a = lookup h a"
    and fy3: "\<forall>a \<in> fst ` set ys. lookup ?h3 a = lookup h a"
    using newx(1,2) by (force simp: lookup_update lookup_append1)+
  have segx3: "dlseg ?h3 None (pHead l) xs (Some pos)"
    using segx unfolding dlseg_frame[OF fx3] .
  have new3: "lookup ?h3 ?new = Some ?n3" by (simp add: lookup_update)
  have pp: "pPrev ?n3 = last_ptr None xs" using pn by simp
  obtain h4 l1 where s4: "insert_link_prev ?h3 l ?new = Inr (h4, l1)"
    "dlseg h4 None (pHead l1) xs (Some ?new)" "lookup h4 ?new = Some ?n3"
    "pTail l1 = pTail l" "numElements l1 = numElements l" "length h4 = length ?h3"
    "\<forall>b. b \<notin> fst ` set xs \<longrightarrow> lookup h4 b = lookup ?h3 b"
    using insert_link_prev_spec[OF segx3 new3 pp dis(1) newx(1)] by blast
  have pn4: "lookup h4 pos = Some pn" using s4(7) dis(3) pn newx
    by (simp add: lookup_update lookup_append1)
  let ?h5 = "h4[pos := Some (pn\<lparr>pPrev := Some ?new\<rparr>)]"
  let ?l2 = "l1\<lparr>numElements := numElements l1 + 1\<rparr>"
  have s5: "insert_link_next h4 l1 ?new = Inr (?h5, l1)"
    using s4(3) pn4 by (simp add: insert_link_next_def deref_Some update_node_Some)
  have res: "insert_l h l (Iterator (Some pos)) v = Inr (?h5, ?l2, Iterator (Some ?new))"
    using ne room pn1 h3 s4(1) s5
    by (simp add: insert_l_def end_l_def new_Node_def deref_Some)
  have fy4: "\<forall>a \<in> fst ` set ((pos, pv) # ys). lookup h4 a = lookup h a"
  proof
    fix a assume a: "a \<in> fst ` set ((pos, pv) # ys)"
    then have "a \<notin> fst ` set xs" "a \<noteq> ?new" using dis(3,5) newx by auto
    then show "lookup h4 a = lookup h a" using s4(7) by simp
  qed
  have "dlseg h (pPrev pn) (Some pos) ((pos, pv) # ys) None" using segp pn by simp
  then have "dlseg h4 (pPrev pn) (Some pos) ((pos, pv) # ys) None"
    unfolding dlseg_frame[OF fy4] .
  from dlseg_set_prev[OF this dis(4) pn4]
  have segp5: "dlseg ?h5 (Some ?new) (Some pos) ((pos, pv) # ys) None" .
  have fx5: "\<forall>a \<in> fst ` set xs. lookup ?h5 a = lookup h4 a"
    using dis(3) by (auto simp: lookup_update)
  have segx5: "dlseg ?h5 None (pHead l1) xs (Some ?new)"
    using s4(2) unfolding dlseg_frame[OF fx5] .
  have new5: "lookup ?h5 ?new = Some ?n3" using s4(3) newx by (simp add: lookup_update)
  have "dlseg ?h5 (last_ptr None xs) (Some ?new) ((?new, v) # (pos, pv) # ys) None"
    using segp5 new5 pn(3) by simp
  then have seg5: "dlseg ?h5 None (pHead ?l2) (xs @ (?new, v) # (pos, pv) # ys) None"
    using segx5 by (simp add: dlseg_append first_ptr_simps)
  have tl: "pTail ?l2 = last_ptr None (xs @ (?new, v) # (pos, pv) # ys)"
    using wf s4(4) by (simp add: dll_def last_ptr_def)
  have cnt: "numElements ?l2 = of_nat (length (xs @ (?new, v) # (pos, pv) # ys))"
    using wf s4(5) by (simp add: dll_def)
  have dst: "distinct (map fst (xs @ (?new, v) # (pos, pv) # ys))"
    using wf newx by (auto simp: dll_def)
  have "dll ?h5 ?l2 (xs @ (?new, v) # (pos, pv) # ys)"
    using seg5 tl cnt dst unfolding dll_def by blast
  moreover have "length ?h5 = Suc (length h)" using s4(6) by simp
  moreover have "\<forall>b. b \<notin> fst ` set ?ns \<and> b \<noteq> ?new \<longrightarrow> lookup ?h5 b = lookup h b"
    using s4(7) by (simp add: lookup_update lookup_append1 image_Un)
  ultimately show ?thesis using res by blast
qed

lemma update_new_cell:
  "t < length h \<Longrightarrow> (h @ [x])[t := c, length h := y] = (h @ [y])[t := c]"
  by (simp add: list_eq_iff_nth_eq nth_list_update nth_append)

lemma insert_end_eq_push_back:
  assumes wf: "dll h l ns" and ok: "heap_ok h"
  shows "insert_l h l (end_l l) v =
           (case push_back h l v of Inl e \<Rightarrow> Inl e
            | Inr (h', l') \<Rightarrow> Inr (h', l', Iterator (Some (length h))))"
proof (cases ns rule: rev_cases)
  case Nil
  then have "pHead l = None" "numElements l = 0" "empty_l l"
    using wf dll_empty_iff[OF wf ok] by (simp_all add: dll_def)
  then show ?thesis
    by (simp add: insert_l_def push_back_def new_Node_def begin_l_def)
next
  case (snoc xs tt)
  obtain t tv where tt: "tt = (t, tv)" by (cases tt)
  have ns: "ns = xs @ [(t, tv)]" using snoc tt by simp
  have ne: "\<not> empty_l l" using dll_empty_iff[OF wf ok] ns by simp
  have seg: "dlseg h None (pHead l) (xs @ [(t, tv)]) None" using wf ns by (simp add: dll_def)
  have hd: "pHead l \<noteq> None" using dlseg_first[OF seg] by (cases xs) (auto simp: first_ptr_def)
  have tl: "pTail l = Some t" using wf ns by (simp add: dll_def last_ptr_def)
  have tlt: "t < length h" using dll_live[OF wf] ns by simp
  obtain m where m: "lookup h t = Some m"
    using dlseg_lookup_last[OF seg] by auto
  show ?thesis
  proof (cases "length h < max_nodes")
    case True
    then show ?thesis using ne hd tl tlt m
      by (auto simp: insert_l_def push_back_def new_Node_def end_l_def update_node_def
          lookup_append1 lookup_update update_new_cell)
  next
    case False
    then show ?thesis using ne hd
      by (auto simp: insert_l_def push_back_def new_Node_def end_l_def)
  qed
qed

definition forward_contents :: "'a heap \<Rightarrow> custom_list \<Rightarrow> (error + 'a list) option" where
  "forward_contents h l = iterate_forward h l (begin_l l) []"

definition backward_contents :: "'a heap \<Rightarrow> custom_list \<Rightarrow> (error + 'a list) option" where
  "backward_contents h l = iterate_backward h l (rbegin l) []"

lemma iter_inc_Some:
  "lookup h a = Some n \<Longrightarrow>
     iter_inc h (Iterator (Some a)) = Inr (Iterator (pNext n), Iterator (pNext n))"
  by (simp add: iter_inc_def deref_Some Let_def)

lemma iter_inc_post_Some:
  "lookup h a = Some n \<Longrightarrow>
     iter_inc_post h (Iterator (Some a)) = Inr (Iterator (pNext n), Iterator (pNext n))"
  by (simp add: iter_inc_post_def deref_Some Let_def)

lemma iter_dec_Some:
  "lookup h a = Some n \<Longrightarrow>
     iter_dec h (Iterator (Some a)) = Inr (Iterator (pPrev n), Iterator (pPrev n))"
  by (simp add: iter_dec_def deref_Some Let_def)

lemma iter_None:
  "iter_inc h (Iterator None) = Inr (Iterator None, Iterator None)"
  "iter_inc_post h (Iterator None) = Inr (Iterator None, Iterator None)"
  "iter_dec h (Iterator None) = Inr (Iterator None, Iterator None)"
  by (simp_all add: iter_inc_def iter_inc_post_def iter_dec_def)

lemma dll_default: "dll h list_default []"
  by (simp add: dll_def list_default_def last_ptr_def)

lemma push_all_spec:
  assumes "dll h l ns" "length h + length vs \<le> max_nodes"
  shows "\<exists>h' l'. push_all h l vs = Inr (h', l') \<and>
           dll h' l' (ns @ zip [length h ..< length h + length vs] vs) \<and>
           length h' = length h + length vs \<and>
           (\<forall>b. b \<notin> fst ` set ns \<and> b < length h \<longrightarrow> lookup h' b = lookup h b)"
  using assms
proof (induction vs arbitrary: h l ns)
  case Nil
  then show ?case by simp
next
  case (Cons v vs)
  have room: "length h < max_nodes" using Cons.prems(2) by simp
  from push_back_spec[OF Cons.prems(1) room, of v] obtain h1 l1 where
    p: "push_back h l v = Inr (h1, l1)" "dll h1 l1 (ns @ [(length h, v)])"
    "length h1 = Suc (length h)"
    "\<forall>b. b \<notin> fst ` set ns \<and> b \<noteq> length h \<longrightarrow> lookup h1 b = lookup h b"
    by blast
  have "length h1 + length vs \<le> max_nodes" using Cons.prems(2) p(3) by simp
  from Cons.IH[OF p(2) this] obtain h' l' where
    q: "push_all h1 l1 vs = Inr (h', l')"
    "dll h' l' ((ns @ [(length h, v)]) @ zip [length h1 ..< length h1 + length vs] vs)"
    "length h' = length h1 + length vs"
    "\<forall>b. b \<notin> fst ` set (ns @ [(length h, v)]) \<and> b < length h1 \<longrightarrow> lookup h' b = lookup h1 b"
    by blast
  have z: "zip [length h ..< length h + length (v # vs)] (v # vs)
            = (length h, v) # zip [length h1 ..< length h1 + length vs] vs"
    using p(3) by (simp add: upt_conv_Cons del: upt_Suc)
  have "\<forall>b. b \<notin> fst ` set ns \<and> b < length h \<longrightarrow> lookup h' b = lookup h b"
    using p(3,4) q(4) by auto
  then show ?case using p(1,3) q(1,2,3) z by simp
qed

lemma iterate_forward_dlseg:
  "dlseg h pr p ns None \<Longrightarrow>
     iterate_forward h l (Iterator p) out = Some (Inr (out @ map snd ns))"
proof (induction ns arbitrary: pr p out)
  case Nil
  then show ?case by (subst iterate_forward.simps) (simp add: end_l_def)
next
  case (Cons x ns)
  obtain a v where x: "x = (a, v)" by (cases x)
  from Cons.prems obtain n where n: "p = Some a" "lookup h a = Some n" "data n = v"
    and seg: "dlseg h (Some a) (pNext n) ns None"
    by (auto simp: x split: option.splits)
  show ?case
    using n Cons.IH[OF seg, of "out @ [v]"]
    by (subst iterate_forward.simps)
       (simp add: end_l_def iter_deref_def get_ref_def deref_Some iter_inc_Some x)
qed

lemma iterate_backward_dlseg:
  "dlseg h None p ns nx \<Longrightarrow>
     iterate_backward h l (Iterator (last_ptr None ns)) out = Some (Inr (out @ rev (map snd ns)))"
proof (induction ns arbitrary: nx out rule: rev_induct)
  case Nil
  then show ?case by (subst iterate_backward.simps) (simp add: end_l_def last_ptr_def)
next
  case (snoc x ns)
  obtain a v where x: "x = (a, v)" by (cases x)
  have seg: "dlseg h None p (ns @ [(a, v)]) nx" using snoc.prems x by simp
  then have seg': "dlseg h None p ns (Some a)"
    by (simp add: dlseg_append first_ptr_simps)
  obtain m where m: "lookup h a = Some m" "data m = v" "pPrev m = last_ptr None ns"
    using dlseg_lookup_last[OF seg] by auto
  show ?case
    using m snoc.IH[OF seg', of "out @ [v]"]
    by (subst iterate_backward.simps)
       (simp add: end_l_def iter_deref_def get_ref_def deref_Some iter_dec_Some x last_ptr_simps)
qed

lemma forward_contents_dll: "dll h l ns \<Longrightarrow> forward_contents h l = Some (Inr (map snd ns))"
  using iterate_forward_dlseg[of h None "pHead l" ns l "[]"]
  by (simp add: forward_contents_def begin_l_def dll_def)

lemma backward_contents_dll:
  "dll h l ns \<Longrightarrow> backward_contents h l = Some (Inr (rev (map snd ns)))"
  using iterate_backward_dlseg[of h "pHead l" ns None l "[]"]
  by (simp add: backward_contents_def rbegin_def dll_def)

lemma erase_loop_spec:
  assumes "dll h l (xs @ ys)"
  shows "\<exists>h' l'. erase_loop h l (Iterator (first_ptr ys None)) = Inr (h', l', Iterator None) \<and>
           dll h' l' xs \<and> length h' = length h \<and>
           (\<forall>a \<in> fst ` set ys. lookup h' a = None) \<and>
           (\<forall>b. b \<notin> fst ` set (xs @ ys) \<longrightarrow> lookup h' b = lookup h b)"
  using assms
proof (induction ys arbitrary: h l)
  case Nil
  then show ?case by (simp add: first_ptr_simps)
next
  case (Cons y ys)
  obtain a v where y: "y = (a, v)" by (cases y)
  have wf: "dll h l (xs @ (a, v) # ys)" using Cons.prems y by simp
  from erase_spec[OF wf] obtain h1 l1 where
    e: "erase h l (Iterator (Some a)) = Inr (h1, l1, Iterator (first_ptr ys None))"
    "dll h1 l1 (xs @ ys)" "lookup h1 a = None" "length h1 = length h"
    "\<forall>b. b \<notin> fst ` set (xs @ (a, v) # ys) \<longrightarrow> lookup h1 b = lookup h b"
    by blast
  from Cons.IH[OF e(2)] obtain h' l' where
    r: "erase_loop h1 l1 (Iterator (first_ptr ys None)) = Inr (h', l', Iterator None)"
    "dll h' l' xs" "length h' = length h1"
    "\<forall>a \<in> fst ` set ys. lookup h' a = None"
    "\<forall>b. b \<notin> fst ` set (xs @ ys) \<longrightarrow> lookup h' b = lookup h1 b"
    by blast
  have an: "a \<notin> fst ` set (xs @ ys)" using wf by (auto simp: dll_def)
  have "lookup h' a = None" using r(5) an e(3) by simp
  moreover have "\<forall>b. b \<notin> fst ` set (xs @ (a, v) # ys) \<longrightarrow> lookup h' b = lookup h b"
    using r(5) e(5) by simp
  ultimately show ?case using e(1,4) r(1,2,3,4) y
    by (simp add: first_ptr_simps)
qed

lemma assign_il_loop_spec:
  assumes "dll h l (dn @ rest)" "length h + (length vs - length rest) \<le> max_nodes"
  shows "\<exists>h' l' dn'.
           assign_il_loop h l (Iterator (first_ptr rest None)) vs
             = Inr (h', l', Iterator (first_ptr (drop (length vs) rest) None)) \<and>
           dll h' l' (dn @ dn' @ drop (length vs) rest) \<and>
           map snd dn' = vs \<and>
           map fst dn' = map fst (take (length vs) rest)
                           @ [length h ..< length h + (length vs - length rest)] \<and>
           length h' = length h + (length vs - length rest) \<and>
           (\<forall>b. b \<notin> fst ` set (dn @ rest) \<and> b < length h \<longrightarrow> lookup h' b = lookup h b)"
  using assms
proof (induction vs arbitrary: h l dn rest)
  case Nil
  have "dll h l (dn @ [] @ rest)" using Nil.prems(1) by simp
  then show ?case by (intro exI[of _ h] exI[of _ l] exI[of _ "[]"]) simp
next
  case (Cons item vs)
  show ?case
  proof (cases rest)
    case Nil
    have wf: "dll h l dn" using Cons.prems(1) Nil by simp
    have room: "length h < max_nodes" using Cons.prems(2) Nil by simp
    from push_back_spec[OF wf room, of item] obtain h1 l1 where
      p: "push_back h l item = Inr (h1, l1)" "dll h1 l1 (dn @ [(length h, item)])"
      "length h1 = Suc (length h)"
      "\<forall>b. b \<notin> fst ` set dn \<and> b \<noteq> length h \<longrightarrow> lookup h1 b = lookup h b"
      by blast
    let ?e = "[] :: (addr \<times> 'a) list"
    have wf1: "dll h1 l1 ((dn @ [(length h, item)]) @ ?e)" using p(2) by simp
    have room1: "length h1 + (length vs - length ?e) \<le> max_nodes"
      using Cons.prems(2) Nil p(3) by simp
    from Cons.IH[OF wf1 room1] obtain h' l' dn' where
      r: "assign_il_loop h1 l1 (Iterator (first_ptr ?e None)) vs
            = Inr (h', l', Iterator (first_ptr (drop (length vs) ?e) None))"
      "dll h' l' ((dn @ [(length h, item)]) @ dn' @ drop (length vs) ?e)"
      "map snd dn' = vs"
      "map fst dn' = map fst (take (length vs) ?e)
                       @ [length h1 ..< length h1 + (length vs - length ?e)]"
      "length h' = length h1 + (length vs - length ?e)"
      "\<forall>b. b \<notin> fst ` set ((dn @ [(length h, item)]) @ ?e) \<and> b < length h1 \<longrightarrow>
           lookup h' b = lookup h1 b"
      by blast
    let ?dn = "(length h, item) # dn'"
    have step: "assign_il_loop h l (Iterator (first_ptr rest None)) (item # vs)
                 = Inr (h', l', Iterator (first_ptr (drop (length (item # vs)) rest) None))"
      using Nil p(1) r(1) by (simp add: first_ptr_simps end_l_def iter_None)
    have "dll h' l' (dn @ ?dn @ drop (length (item # vs)) rest)" using r(2) Nil by simp
    moreover have "map snd ?dn = item # vs" using r(3) by simp
    moreover have "map fst ?dn = map fst (take (length (item # vs)) rest)
                           @ [length h ..< length h + (length (item # vs) - length rest)]"
      using r(4) p(3) Nil by (simp add: upt_conv_Cons del: upt_Suc)
    moreover have "length h' = length h + (length (item # vs) - length rest)"
      using r(5) p(3) Nil by simp
    moreover have "\<forall>b. b \<notin> fst ` set (dn @ rest) \<and> b < length h \<longrightarrow> lookup h' b = lookup h b"
      using r(6) p(3,4) Nil by auto
    ultimately show ?thesis using step
      by (intro exI[of _ h'] exI[of _ l'] exI[of _ ?dn]) blast
  next
    case (Cons aw rest')
    obtain a w where aw: "aw = (a, w)" by (cases aw)
    have rest: "rest = (a, w) # rest'" using Cons aw by simp
    have wf: "dll h l (dn @ (a, w) # rest')" using Cons.prems(1) rest by simp
    from dll_set_data[OF wf, of item] obtain n where
      n: "lookup h a = Some n"
      "set_ref h a item = Inr (h[a := Some (n\<lparr>data := item\<rparr>)])"
      "dll (h[a := Some (n\<lparr>data := item\<rparr>)]) l (dn @ (a, item) # rest')"
      by blast
    let ?h1 = "h[a := Some (n\<lparr>data := item\<rparr>)]"
    from dll_lookup[OF n(3)] obtain n1 where
      n1: "lookup ?h1 a = Some n1" "pNext n1 = first_ptr rest' None" by blast
    have wf1: "dll ?h1 l ((dn @ [(a, item)]) @ rest')" using n(3) by simp
    have room1: "length ?h1 + (length vs - length rest') \<le> max_nodes"
      using Cons.prems(2) rest by simp
    from Cons.IH[OF wf1 room1] obtain h' l' dn' where
      r: "assign_il_loop ?h1 l (Iterator (first_ptr rest' None)) vs
            = Inr (h', l', Iterator (first_ptr (drop (length vs) rest') None))"
      "dll h' l' ((dn @ [(a, item)]) @ dn' @ drop (length vs) rest')"
      "map snd dn' = vs"
      "map fst dn' = map fst (take (length vs) rest')
                       @ [length ?h1 ..< length ?h1 + (length vs - length rest')]"
      "length h' = length ?h1 + (length vs - length rest')"
      "\<forall>b. b \<notin> fst ` set ((dn @ [(a, item)]) @ rest') \<and> b < length ?h1 \<longrightarrow>
           lookup h' b = lookup ?h1 b"
      by blast
    let ?dn = "(a, item) # dn'"
    have step: "assign_il_loop h l (Iterator (first_ptr rest None)) (item # vs)
                 = Inr (h', l', Iterator (first_ptr (drop (length (item # vs)) rest) None))"
      using rest n(2) n1 r(1)
      by (simp add: first_ptr_simps end_l_def iter_deref_def iter_inc_post_Some)
    have "dll h' l' (dn @ ?dn @ drop (length (item # vs)) rest)" using r(2) rest by simp
    moreover have "map snd ?dn = item # vs" using r(3) by simp
    moreover have "map fst ?dn = map fst (take (length (item # vs)) rest)
                           @ [length h ..< length h + (length (item # vs) - length rest)]"
      using r(4) rest by simp
    moreover have "length h' = length h + (length (item # vs) - length rest)"
      using r(5) rest by simp
    moreover have "\<forall>b. b \<notin> fst ` set (dn @ rest) \<and> b < length h \<longrightarrow> lookup h' b = lookup h b"
      using r(6) rest by auto
    ultimately show ?thesis using step
      by (intro exI[of _ h'] exI[of _ l'] exI[of _ ?dn]) blast
  qed
qed

lemma clear_loop_spec:
  assumes "dlseg h pr (pHead l) ns None" "distinct (map fst ns)"
  shows "\<exists>h'. clear_loop h l
                 = Inr (h', l\<lparr>pHead := None,
                               numElements := numElements l - of_nat (length ns)\<rparr>) \<and>
           length h' = length h \<and>
           (\<forall>a \<in> fst ` set ns. lookup h' a = None) \<and>
           (\<forall>b. b \<notin> fst ` set ns \<longrightarrow> lookup h' b = lookup h b)"
  using assms
proof (induction ns arbitrary: h l pr)
  case Nil
  then have "pHead l = None" by simp
  then have "l\<lparr>pHead := None, numElements := numElements l - of_nat (length ([] :: (addr \<times> 'a) list))\<rparr> = l"
    by simp
  then show ?case using \<open>pHead l = None\<close> by (subst clear_loop.simps) simp
next
  case (Cons x ns)
  obtain a v where x: "x = (a, v)" by (cases x)
  from Cons.prems(1) obtain n where n: "pHead l = Some a" "lookup h a = Some n"
    and seg: "dlseg h (Some a) (pNext n) ns None"
    by (auto simp: x split: option.splits)
  have an: "a \<notin> fst ` set ns" and d: "distinct (map fst ns)" using Cons.prems(2) x by auto
  let ?h1 = "h[a := None]"
  let ?l1 = "l\<lparr>pHead := pNext n, numElements := numElements l - 1\<rparr>"
  have f: "\<forall>b \<in> fst ` set ns. lookup ?h1 b = lookup h b" using an by auto
  have seg1: "dlseg ?h1 (Some a) (pHead ?l1) ns None"
    using seg unfolding dlseg_frame[OF f] by simp
  from Cons.IH[OF seg1 d] obtain h' where
    r: "clear_loop ?h1 ?l1 = Inr (h', ?l1\<lparr>pHead := None,
                               numElements := numElements ?l1 - of_nat (length ns)\<rparr>)"
    "length h' = length ?h1" "\<forall>a \<in> fst ` set ns. lookup h' a = None"
    "\<forall>b. b \<notin> fst ` set ns \<longrightarrow> lookup h' b = lookup ?h1 b"
    by blast
  have al: "a < length h" using n(2) by (rule lookup_Some_less)
  have step: "clear_loop h l = clear_loop ?h1 ?l1"
    using n by (subst clear_loop.simps) (simp add: deref_Some delete_Node_Some)
  have "lookup h' a = None" using r(4) an al by simp
  then show ?case using step r x by (auto simp: diff_diff_eq)
qed

lemma clear_spec:
  assumes wf: "dll h l ns"
  shows "\<exists>h' l'. clear h l = Inr (h', l') \<and> dll h' l' [] \<and> length h' = length h \<and>
           (\<forall>a \<in> fst ` set ns. lookup h' a = None) \<and>
           (\<forall>b. b \<notin> fst ` set ns \<longrightarrow> lookup h' b = lookup h b)"
proof -
  have seg: "dlseg h None (pHead l) ns None" and d: "distinct (map fst ns)"
    and c: "numElements l = of_nat (length ns)"
    using wf by (simp_all add: dll_def)
  from clear_loop_spec[OF seg d] obtain h' where
    r: "clear_loop h l = Inr (h', l\<lparr>pHead := None,
                               numElements := numElements l - of_nat (length ns)\<rparr>)"
    "length h' = length h" "\<forall>a \<in> fst ` set ns. lookup h' a = None"
    "\<forall>b. b \<notin> fst ` set ns \<longrightarrow> lookup h' b = lookup h b"
    by blast
  show ?thesis using r c by (simp add: clear_def dll_def last_ptr_def)
qed

lemma dll_frame:
  assumes "dll h l ns" "\<forall>a \<in> fst ` set ns. lookup h' a = lookup h a"
  shows "dll h' l ns"
  using assms dlseg_frame[OF assms(2)] by (simp add: dll_def)

lemma dll_fresh: "dll h l ns \<Longrightarrow> length h \<notin> fst ` set ns"
  using dll_live[of h l ns] by fastforce

lemma append_loop_spec:
  assumes "dll h l ns" "dll h rhs (rd @ rr)" "fst ` set ns \<inter> fst ` set (rd @ rr) = {}"
    "length h + length rr \<le> max_nodes"
  shows "\<exists>h' l'. append_loop h l rhs (Iterator (first_ptr rr None)) = Inr (h', l', Iterator None) \<and>
           dll h' l' (ns @ zip [length h ..< length h + length rr] (map snd rr)) \<and>
           dll h' rhs (rd @ rr) \<and> length h' = length h + length rr \<and>
           (\<forall>b. b \<notin> fst ` set ns \<and> b < length h \<longrightarrow> lookup h' b = lookup h b)"
  using assms
proof (induction rr arbitrary: h l ns rd)
  case Nil
  then show ?case by (simp add: first_ptr_simps end_l_def)
next
  case (Cons x rr)
  obtain a v where x: "x = (a, v)" by (cases x)
  have wfr: "dll h rhs (rd @ (a, v) # rr)" using Cons.prems(2) x by simp
  from dll_lookup[OF wfr] obtain n where
    n: "lookup h a = Some n" "data n = v" "pNext n = first_ptr rr None" by blast
  have room: "length h < max_nodes" using Cons.prems(4) by simp
  from push_back_spec[OF Cons.prems(1) room, of v] obtain h1 l1 where
    p: "push_back h l v = Inr (h1, l1)" "dll h1 l1 (ns @ [(length h, v)])"
    "length h1 = Suc (length h)"
    "\<forall>b. b \<notin> fst ` set ns \<and> b \<noteq> length h \<longrightarrow> lookup h1 b = lookup h b"
    by blast
  have lvr: "\<forall>b \<in> fst ` set (rd @ (a, v) # rr). b < length h" using wfr by (rule dll_live)
  have fr: "\<forall>b \<in> fst ` set (rd @ (a, v) # rr). lookup h1 b = lookup h b"
  proof
    fix b assume b: "b \<in> fst ` set (rd @ (a, v) # rr)"
    then have "b \<notin> fst ` set ns" using Cons.prems(3) x by auto
    moreover have "b \<noteq> length h" using dll_fresh[OF wfr] b by auto
    ultimately show "lookup h1 b = lookup h b" using p(4) by simp
  qed
  have wfr1: "dll h1 rhs ((rd @ [(a, v)]) @ rr)" using dll_frame[OF wfr fr] by simp
  have n1: "lookup h1 a = Some n" using fr n(1) by simp
  have dis1: "fst ` set (ns @ [(length h, v)]) \<inter> fst ` set ((rd @ [(a, v)]) @ rr) = {}"
    using Cons.prems(3) dll_fresh[OF wfr] x by auto
  have room1: "length h1 + length rr \<le> max_nodes" using Cons.prems(4) p(3) by simp
  from Cons.IH[OF p(2) wfr1 dis1 room1] obtain h' l' where
    r: "append_loop h1 l1 rhs (Iterator (first_ptr rr None)) = Inr (h', l', Iterator None)"
    "dll h' l' ((ns @ [(length h, v)]) @ zip [length h1 ..< length h1 + length rr] (map snd rr))"
    "dll h' rhs ((rd @ [(a, v)]) @ rr)" "length h' = length h1 + length rr"
    "\<forall>b. b \<notin> fst ` set (ns @ [(length h, v)]) \<and> b < length h1 \<longrightarrow> lookup h' b = lookup h1 b"
    by blast
  have step: "append_loop h l rhs (Iterator (first_ptr (x # rr) None))
               = append_loop h1 l1 rhs (Iterator (first_ptr rr None))"
    using n p(1) n1 x
    by (subst append_loop.simps)
       (simp add: first_ptr_simps end_l_def iter_deref_def get_ref_def deref_Some iter_inc_Some)
  have z: "zip [length h ..< length h + length (x # rr)] (map snd (x # rr))
            = (length h, v) # zip [length h1 ..< length h1 + length rr] (map snd rr)"
    using p(3) x by (simp add: upt_conv_Cons del: upt_Suc)
  have "\<forall>b. b \<notin> fst ` set ns \<and> b < length h \<longrightarrow> lookup h' b = lookup h b"
    using r(5) p(3,4) by auto
  then show ?case using step r(1,2,3,4) z p(3) x by simp
qed

fun overwrite :: "(addr \<times> 'a) list \<Rightarrow> 'a list \<Rightarrow> (addr \<times> 'a) list" where
  "overwrite [] vs = []"
| "overwrite (x # ns) [] = x # ns"
| "overwrite ((a, w) # ns) (v # vs) = (a, v) # overwrite ns vs"

lemma overwrite_Nil2 [simp]: "overwrite ns [] = ns"
  by (cases ns) simp_all

lemma map_fst_overwrite [simp]: "map fst (overwrite ns vs) = map fst ns"
  by (induction ns vs rule: overwrite.induct) simp_all

lemma set_fst_overwrite [simp]: "fst ` set (overwrite ns vs) = fst ` set ns"
  using map_fst_overwrite[of ns vs] by (metis set_map)

lemma length_overwrite [simp]: "length (overwrite ns vs) = length ns"
  using map_fst_overwrite[of ns vs] by (metis length_map)

lemma map_snd_overwrite:
  "map snd (overwrite ns vs) = take (length ns) vs @ drop (length vs) (map snd ns)"
  by (induction ns vs rule: overwrite.induct) simp_all

lemma assign_copy_loop_spec:
  assumes "dll h lhs (ld @ lr)" "dll h rhs (rd @ rr)"
    "fst ` set (ld @ lr) \<inter> fst ` set (rd @ rr) = {}"
  shows "\<exists>h'. assign_copy_loop h lhs rhs (Iterator (first_ptr rr None))
                                            (Iterator (first_ptr lr None))
             = Some (Inr (h', Iterator (first_ptr (drop (length lr) rr) None),
                              Iterator (first_ptr (drop (length rr) lr) None))) \<and>
           dll h' lhs (ld @ overwrite lr (map snd rr)) \<and> dll h' rhs (rd @ rr) \<and>
           length h' = length h \<and>
           (\<forall>b. b \<notin> fst ` set lr \<longrightarrow> lookup h' b = lookup h b)"
  using assms
proof (induction rr arbitrary: h ld lr rd)
  case Nil
  then show ?case
    by (subst assign_copy_loop.simps) (simp add: first_ptr_simps end_l_def)
next
  case (Cons x rr)
  obtain ra rv where x: "x = (ra, rv)" by (cases x)
  show ?case
  proof (cases lr)
    case Nil
    then show ?thesis using Cons.prems
      by (subst assign_copy_loop.simps) (simp add: first_ptr_simps end_l_def)
  next
    case (Cons y lr')
    obtain la lv where y: "y = (la, lv)" by (cases y)
    have lr: "lr = (la, lv) # lr'" using Cons y by simp
    have wfl: "dll h lhs (ld @ (la, lv) # lr')" using Cons.prems(1) lr by simp
    have wfr: "dll h rhs (rd @ (ra, rv) # rr)" using Cons.prems(2) x by simp
    from dll_lookup[OF wfr] obtain rn where
      rn: "lookup h ra = Some rn" "data rn = rv" "pNext rn = first_ptr rr None" by blast
    from dll_set_data[OF wfl, of rv] obtain ln where
      ln: "lookup h la = Some ln"
      "set_ref h la rv = Inr (h[la := Some (ln\<lparr>data := rv\<rparr>)])"
      "dll (h[la := Some (ln\<lparr>data := rv\<rparr>)]) lhs (ld @ (la, rv) # lr')"
      by blast
    let ?h1 = "h[la := Some (ln\<lparr>data := rv\<rparr>)]"
    have lar: "la \<notin> fst ` set (rd @ (ra, rv) # rr)" using Cons.prems(3) lr x by auto
    have fr: "\<forall>b \<in> fst ` set (rd @ (ra, rv) # rr). lookup ?h1 b = lookup h b"
      using lar by auto
    have wfr1: "dll ?h1 rhs ((rd @ [(ra, rv)]) @ rr)" using dll_frame[OF wfr fr] by simp
    have rn1: "lookup ?h1 ra = Some rn" using fr rn(1) by simp
    from dll_lookup[OF ln(3)] obtain ln1 where
      ln1: "lookup ?h1 la = Some ln1" "pNext ln1 = first_ptr lr' None" by blast
    have wfl1: "dll ?h1 lhs ((ld @ [(la, rv)]) @ lr')" using ln(3) by simp
    have dis1: "fst ` set ((ld @ [(la, rv)]) @ lr') \<inter> fst ` set ((rd @ [(ra, rv)]) @ rr) = {}"
      using Cons.prems(3) lr x by auto
    from Cons.IH[OF wfl1 wfr1 dis1] obtain h' where
      r: "assign_copy_loop ?h1 lhs rhs (Iterator (first_ptr rr None))
                                        (Iterator (first_ptr lr' None))
             = Some (Inr (h', Iterator (first_ptr (drop (length lr') rr) None),
                              Iterator (first_ptr (drop (length rr) lr') None)))"
      "dll h' lhs ((ld @ [(la, rv)]) @ overwrite lr' (map snd rr))"
      "dll h' rhs ((rd @ [(ra, rv)]) @ rr)" "length h' = length ?h1"
      "\<forall>b. b \<notin> fst ` set lr' \<longrightarrow> lookup h' b = lookup ?h1 b"
      by blast
    have step: "assign_copy_loop h lhs rhs (Iterator (first_ptr (x # rr) None))
                                            (Iterator (first_ptr lr None))
                = assign_copy_loop ?h1 lhs rhs (Iterator (first_ptr rr None))
                                                (Iterator (first_ptr lr' None))"
      using rn ln(2) ln1 rn1 x lr
      by (subst assign_copy_loop.simps)
         (simp add: first_ptr_simps end_l_def iter_deref_def get_ref_def deref_Some iter_inc_Some)
    have "\<forall>b. b \<notin> fst ` set lr \<longrightarrow> lookup h' b = lookup h b"
      using r(5) lr by auto
    then show ?thesis using step r(1,2,3,4) x lr by simp
  qed
qed

lemma heap_ok_same_length: "heap_ok h \<Longrightarrow> length h' = length h \<Longrightarrow> heap_ok h'"
  by (simp add: heap_ok_def)

lemma first_ptr_None_iff: "first_ptr ns None = None \<longleftrightarrow> ns = []"
  by (cases ns) (auto simp: first_ptr_def)

lemma assign_move_loop_spec:
  assumes "dll h lhs (ld @ lr)" "dll h rhs (rd @ rr)"
    "fst ` set (ld @ lr) \<inter> fst ` set (rd @ rr) = {}"
  shows "\<exists>h'. assign_move_loop moved h lhs rhs (Iterator (first_ptr rr None))
                                                  (Iterator (first_ptr lr None))
             = Some (Inr (h', Iterator (first_ptr (drop (length lr) rr) None),
                              Iterator (first_ptr (drop (length rr) lr) None))) \<and>
           dll h' lhs (ld @ overwrite lr (map snd rr)) \<and>
           dll h' rhs (rd @ overwrite rr (map2 moved (map snd lr) (map snd rr))) \<and>
           length h' = length h \<and>
           (\<forall>b. b \<notin> fst ` set lr \<union> fst ` set rr \<longrightarrow> lookup h' b = lookup h b)"
  using assms
proof (induction rr arbitrary: h ld lr rd)
  case Nil
  then show ?case
    by (subst assign_move_loop.simps) (simp add: first_ptr_simps end_l_def)
next
  case (Cons x rr)
  obtain ra rv where x: "x = (ra, rv)" by (cases x)
  show ?case
  proof (cases lr)
    case Nil
    then show ?thesis using Cons.prems
      by (subst assign_move_loop.simps) (simp add: first_ptr_simps end_l_def)
  next
    case (Cons y lr')
    obtain la lv where y: "y = (la, lv)" by (cases y)
    have lr: "lr = (la, lv) # lr'" using Cons y by simp
    have wfl: "dll h lhs (ld @ (la, lv) # lr')" using Cons.prems(1) lr by simp
    have wfr: "dll h rhs (rd @ (ra, rv) # rr)" using Cons.prems(2) x by simp
    from dll_lookup[OF wfr] obtain rn where
      rn: "lookup h ra = Some rn" "data rn = rv" by blast
    from dll_set_data[OF wfl, of rv] obtain ln where
      ln: "lookup h la = Some ln"
      "set_ref h la rv = Inr (h[la := Some (ln\<lparr>data := rv\<rparr>)])"
      "dll (h[la := Some (ln\<lparr>data := rv\<rparr>)]) lhs (ld @ (la, rv) # lr')"
      by blast
    have lnv: "data ln = lv" using dll_lookup[OF wfl] ln(1) by auto
    let ?h1 = "h[la := Some (ln\<lparr>data := rv\<rparr>)]"
    have lar: "la \<notin> fst ` set (rd @ (ra, rv) # rr)" using Cons.prems(3) lr x by auto
    have fr: "\<forall>b \<in> fst ` set (rd @ (ra, rv) # rr). lookup ?h1 b = lookup h b"
      using lar by auto
    have wfr1: "dll ?h1 rhs (rd @ (ra, rv) # rr)" using dll_frame[OF wfr fr] .
    from dll_set_data[OF wfr1, of "moved lv rv"] obtain rn1 where
      rn1: "lookup ?h1 ra = Some rn1"
      "set_ref ?h1 ra (moved lv rv) = Inr (?h1[ra := Some (rn1\<lparr>data := moved lv rv\<rparr>)])"
      "dll (?h1[ra := Some (rn1\<lparr>data := moved lv rv\<rparr>)]) rhs (rd @ (ra, moved lv rv) # rr)"
      by blast
    let ?h2 = "?h1[ra := Some (rn1\<lparr>data := moved lv rv\<rparr>)]"
    have ral: "ra \<notin> fst ` set (ld @ (la, rv) # lr')" using Cons.prems(3) lr x by auto
    have fl: "\<forall>b \<in> fst ` set (ld @ (la, rv) # lr'). lookup ?h2 b = lookup ?h1 b"
      using ral by auto
    have wfl2: "dll ?h2 lhs ((ld @ [(la, rv)]) @ lr')" using dll_frame[OF ln(3) fl] by simp
    have wfr2: "dll ?h2 rhs ((rd @ [(ra, moved lv rv)]) @ rr)" using rn1(3) by simp
    from dll_lookup[OF rn1(3)] obtain rn2 where
      rn2: "lookup ?h2 ra = Some rn2" "pNext rn2 = first_ptr rr None" by blast
    have "dll ?h2 lhs (ld @ (la, rv) # lr')" using wfl2 by simp
    from dll_lookup[OF this] obtain ln2 where
      ln2: "lookup ?h2 la = Some ln2" "pNext ln2 = first_ptr lr' None" by blast
    have dis2: "fst ` set ((ld @ [(la, rv)]) @ lr') \<inter> fst ` set ((rd @ [(ra, moved lv rv)]) @ rr) = {}"
      using Cons.prems(3) lr x by auto
    from Cons.IH[OF wfl2 wfr2 dis2] obtain h' where
      r: "assign_move_loop moved ?h2 lhs rhs (Iterator (first_ptr rr None))
                                              (Iterator (first_ptr lr' None))
             = Some (Inr (h', Iterator (first_ptr (drop (length lr') rr) None),
                              Iterator (first_ptr (drop (length rr) lr') None)))"
      "dll h' lhs ((ld @ [(la, rv)]) @ overwrite lr' (map snd rr))"
      "dll h' rhs ((rd @ [(ra, moved lv rv)])
                     @ overwrite rr (map2 moved (map snd lr') (map snd rr)))"
      "length h' = length ?h2"
      "\<forall>b. b \<notin> fst ` set lr' \<union> fst ` set rr \<longrightarrow> lookup h' b = lookup ?h2 b"
      by blast
    have step: "assign_move_loop moved h lhs rhs (Iterator (first_ptr (x # rr) None))
                                                  (Iterator (first_ptr lr None))
                = assign_move_loop moved ?h2 lhs rhs (Iterator (first_ptr rr None))
                                                      (Iterator (first_ptr lr' None))"
      using rn ln(1) lnv ln(2) rn1(2) ln2 rn2 x lr
      by (subst assign_move_loop.simps)
         (simp add: first_ptr_simps end_l_def iter_deref_def get_ref_def deref_Some iter_inc_Some)
    have "\<forall>b. b \<notin> fst ` set lr \<union> fst ` set (x # rr) \<longrightarrow> lookup h' b = lookup h b"
      using r(5) lr x by auto
    then show ?thesis using step r(1,2,3,4) x lr by simp
  qed
qed

definition assign_tail ::
  "'a heap \<Rightarrow> custom_list \<Rightarrow> custom_list \<Rightarrow> iterator \<Rightarrow> iterator \<Rightarrow> error + ('a heap \<times> custom_list)" where
  "assign_tail h1 lhs rhs itRhs itLhs =
     (if itRhs \<noteq> end_l rhs then
        (case append_loop h1 lhs rhs itRhs of Inl e \<Rightarrow> Inl e
         | Inr (h2, lhs1, it) \<Rightarrow> Inr (h2, lhs1))
      else if empty_l rhs then clear h1 lhs
      else if itLhs \<noteq> end_l lhs then
        (case erase_loop h1 lhs itLhs of Inl e \<Rightarrow> Inl e
         | Inr (h2, lhs1, it) \<Rightarrow> Inr (h2, lhs1))
      else Inr (h1, lhs))"

lemma assign_copy_tail:
  "assign_copy h lhs rhs =
     (case assign_copy_loop h lhs rhs (begin_l rhs) (begin_l lhs) of
        None \<Rightarrow> None
      | Some (Inl e) \<Rightarrow> Some (Inl e)
      | Some (Inr (h1, itRhs, itLhs)) \<Rightarrow> Some (assign_tail h1 lhs rhs itRhs itLhs))"
  by (simp add: assign_copy_def assign_tail_def split: option.splits sum.splits)

lemma assign_move_tail:
  "assign_move moved h lhs rhs =
     (case assign_move_loop moved h lhs rhs (begin_l rhs) (begin_l lhs) of
        None \<Rightarrow> None
      | Some (Inl e) \<Rightarrow> Some (Inl e)
      | Some (Inr (h1, itRhs, itLhs)) \<Rightarrow> Some (assign_tail h1 lhs rhs itRhs itLhs))"
  by (simp add: assign_move_def assign_tail_def split: option.splits sum.splits)

lemma assign_tail_spec:
  assumes wfl1: "dll h1 lhs ls1" and wfr1: "dll h1 rhs rs1"
    and dis: "fst ` set ls1 \<inter> fst ` set rs1 = {}"
    and ok1: "heap_ok h1" and room: "length h1 + (length rs1 - length ls1) \<le> max_nodes"
  shows "\<exists>h' lhs'.
           assign_tail h1 lhs rhs (Iterator (first_ptr (drop (length ls1) rs1) None))
                                  (Iterator (first_ptr (drop (length rs1) ls1) None))
             = Inr (h', lhs') \<and>
           dll h' lhs' (take (length rs1) ls1
                          @ zip [length h1 ..< length h1 + (length rs1 - length ls1)]
                                (map snd (drop (length ls1) rs1))) \<and>
           dll h' rhs rs1 \<and>
           length h' = length h1 + (length rs1 - length ls1) \<and>
           (\<forall>a \<in> fst ` set (drop (length rs1) ls1). lookup h' a = None) \<and>
           (\<forall>b. b \<notin> fst ` set ls1 \<and> b < length h1 \<longrightarrow> lookup h' b = lookup h1 b)"
proof -
  have emp: "empty_l rhs = (rs1 = [])" using dll_empty_iff[OF wfr1 ok1] .
  show ?thesis
  proof (cases "length ls1 < length rs1")
    case True
    let ?rr = "drop (length ls1) rs1"
    have ne: "first_ptr ?rr None \<noteq> None" using True by (simp add: first_ptr_None_iff)
    have wfr2: "dll h1 rhs (take (length ls1) rs1 @ ?rr)" using wfr1 by simp
    have dis2: "fst ` set ls1 \<inter> fst ` set (take (length ls1) rs1 @ ?rr) = {}"
      using dis by simp
    have room2: "length h1 + length ?rr \<le> max_nodes" using room by simp
    from append_loop_spec[OF wfl1 wfr2 dis2 room2] obtain h' l' where
      a: "append_loop h1 lhs rhs (Iterator (first_ptr ?rr None)) = Inr (h', l', Iterator None)"
      "dll h' l' (ls1 @ zip [length h1 ..< length h1 + length ?rr] (map snd ?rr))"
      "dll h' rhs (take (length ls1) rs1 @ ?rr)" "length h' = length h1 + length ?rr"
      "\<forall>b. b \<notin> fst ` set ls1 \<and> b < length h1 \<longrightarrow> lookup h' b = lookup h1 b"
      by blast
    have res: "assign_tail h1 lhs rhs (Iterator (first_ptr ?rr None))
                 (Iterator (first_ptr (drop (length rs1) ls1) None)) = Inr (h', l')"
      using ne a(1) by (simp add: assign_tail_def end_l_def)
    show ?thesis using res a(2,3,4,5) True
      by (intro exI[of _ h'] exI[of _ l']) simp
  next
    case False
    then have le: "length rs1 \<le> length ls1" by simp
    then have itr: "first_ptr (drop (length ls1) rs1) None = None" by (simp add: first_ptr_simps)
    show ?thesis
    proof (cases "rs1 = []")
      case True
      from clear_spec[OF wfl1] obtain h' l' where
        c: "clear h1 lhs = Inr (h', l')" "dll h' l' []" "length h' = length h1"
        "\<forall>a \<in> fst ` set ls1. lookup h' a = None"
        "\<forall>b. b \<notin> fst ` set ls1 \<longrightarrow> lookup h' b = lookup h1 b"
        by blast
      have res: "assign_tail h1 lhs rhs (Iterator (first_ptr (drop (length ls1) rs1) None))
                   (Iterator (first_ptr (drop (length rs1) ls1) None)) = Inr (h', l')"
        using itr emp True c(1) by (simp add: assign_tail_def end_l_def)
      have "dll h' rhs rs1" using True wfr1 by (simp add: dll_def)
      then show ?thesis using res c True
        by (intro exI[of _ h'] exI[of _ l']) simp
    next
      case False
      let ?xs = "take (length rs1) ls1"
      let ?ys = "drop (length rs1) ls1"
      have wfl2: "dll h1 lhs (?xs @ ?ys)" using wfl1 by simp
      from erase_loop_spec[OF wfl2] obtain h' l' where
        e: "erase_loop h1 lhs (Iterator (first_ptr ?ys None)) = Inr (h', l', Iterator None)"
        "dll h' l' ?xs" "length h' = length h1"
        "\<forall>a \<in> fst ` set ?ys. lookup h' a = None"
        "\<forall>b. b \<notin> fst ` set (?xs @ ?ys) \<longrightarrow> lookup h' b = lookup h1 b"
        by blast
      have res: "assign_tail h1 lhs rhs (Iterator (first_ptr (drop (length ls1) rs1) None))
                   (Iterator (first_ptr ?ys None)) = Inr (h', l')"
      proof (cases "first_ptr ?ys None")
        case None
        then have "erase_loop h1 lhs (Iterator (first_ptr ?ys None)) = Inr (h1, lhs, Iterator None)"
          by simp
        then have "h' = h1" "l' = lhs" using e(1) by simp_all
        then show ?thesis using itr emp False None
          by (simp add: assign_tail_def end_l_def)
      next
        case (Some a)
        then show ?thesis using itr emp False e(1)
          by (simp add: assign_tail_def end_l_def)
      qed
      have disr: "\<forall>b \<in> fst ` set rs1. b \<notin> fst ` set (?xs @ ?ys)" using dis by auto
      have "\<forall>b \<in> fst ` set rs1. lookup h' b = lookup h1 b" using e(5) disr by blast
      then have "dll h' rhs rs1" using dll_frame[OF wfr1] by simp
      moreover have "\<forall>b. b \<notin> fst ` set ls1 \<and> b < length h1 \<longrightarrow> lookup h' b = lookup h1 b"
        using e(5) by simp
      ultimately show ?thesis using res e(2,3,4) le
        by (intro exI[of _ h'] exI[of _ l']) simp
    qed
  qed
qed

lemma overwrite_result_vals:
  "map snd (take (length vs) (overwrite ls vs)) @ drop (length ls) vs = vs"
  by (induction ls vs rule: overwrite.induct) simp_all

lemma drop_overwrite: "length ws \<le> k \<Longrightarrow> drop k (overwrite ns ws) = drop k ns"
proof (induction ns ws arbitrary: k rule: overwrite.induct)
  case (3 a w ns v vs)
  then show ?case by (cases k) simp_all
qed simp_all

lemma take_overwrite: "take k (overwrite ns ws) = overwrite (take k ns) ws"
proof (induction ns ws arbitrary: k rule: overwrite.induct)
  case (3 a w ns v vs)
  then show ?case by (cases k) simp_all
qed simp_all

lemma zip_upt_fst: "length ys = n \<Longrightarrow> map fst (zip [a ..< a + n] ys) = [a ..< a + n]"
  by simp

lemma zip_upt_snd: "length ys = n \<Longrightarrow> map snd (zip [a ..< a + n] ys) = ys"
  by simp

lemma assign_copy_spec:
  assumes wfl: "dll h lhs ls" and wfr: "dll h rhs rs"
    and dis: "fst ` set ls \<inter> fst ` set rs = {}"
    and ok: "heap_ok h" and room: "length h + (length rs - length ls) \<le> max_nodes"
  shows "\<exists>h' lhs' ls'. assign_copy h lhs rhs = Some (Inr (h', lhs')) \<and>
           dll h' lhs' ls' \<and> map snd ls' = map snd rs \<and> dll h' rhs rs \<and>
           map fst ls' = map fst (take (length rs) ls)
                           @ [length h ..< length h + (length rs - length ls)] \<and>
           length h' = length h + (length rs - length ls) \<and>
           (\<forall>a \<in> fst ` set (drop (length rs) ls). lookup h' a = None) \<and>
           (\<forall>b. b \<notin> fst ` set ls \<and> b < length h \<longrightarrow> lookup h' b = lookup h b)"
proof -
  let ?ls1 = "overwrite ls (map snd rs)"
  have wfl0: "dll h lhs ([] @ ls)" and wfr0: "dll h rhs ([] @ rs)"
    and dis0: "fst ` set ([] @ ls) \<inter> fst ` set ([] @ rs) = {}"
    using wfl wfr dis by simp_all
  from assign_copy_loop_spec[OF wfl0 wfr0 dis0] obtain h1 where
    s: "assign_copy_loop h lhs rhs (Iterator (first_ptr rs None)) (Iterator (first_ptr ls None))
          = Some (Inr (h1, Iterator (first_ptr (drop (length ls) rs) None),
                           Iterator (first_ptr (drop (length rs) ls) None)))"
    "dll h1 lhs ([] @ ?ls1)" "dll h1 rhs ([] @ rs)" "length h1 = length h"
    "\<forall>b. b \<notin> fst ` set ls \<longrightarrow> lookup h1 b = lookup h b"
    by blast
  have wfl1: "dll h1 lhs ?ls1" and wfr1: "dll h1 rhs rs" using s(2,3) by simp_all
  have ok1: "heap_ok h1" using ok s(4) by (rule heap_ok_same_length)
  have beg: "begin_l rhs = Iterator (first_ptr rs None)" "begin_l lhs = Iterator (first_ptr ls None)"
    using dll_head[OF wfr] dll_head[OF wfl] by (simp_all add: begin_l_def)
  have dis1: "fst ` set ?ls1 \<inter> fst ` set rs = {}" using dis by simp
  have room1: "length h1 + (length rs - length ?ls1) \<le> max_nodes" using room s(4) by simp
  let ?ls' = "take (length rs) ?ls1
                @ zip [length h1 ..< length h1 + (length rs - length ?ls1)]
                      (map snd (drop (length ?ls1) rs))"
  from assign_tail_spec[OF wfl1 wfr1 dis1 ok1 room1] obtain h' lhs' where
    t: "assign_tail h1 lhs rhs (Iterator (first_ptr (drop (length ?ls1) rs) None))
                               (Iterator (first_ptr (drop (length rs) ?ls1) None))
          = Inr (h', lhs')"
    "dll h' lhs' ?ls'" "dll h' rhs rs"
    "length h' = length h1 + (length rs - length ?ls1)"
    "\<forall>a \<in> fst ` set (drop (length rs) ?ls1). lookup h' a = None"
    "\<forall>b. b \<notin> fst ` set ?ls1 \<and> b < length h1 \<longrightarrow> lookup h' b = lookup h1 b"
    by blast
  have dr: "drop (length rs) ?ls1 = drop (length rs) ls"
    by (simp add: drop_overwrite)
  have res: "assign_copy h lhs rhs = Some (Inr (h', lhs'))"
    using s(1) beg t(1) dr by (simp add: assign_copy_tail)
  have v: "map snd ?ls' = map snd rs"
    using overwrite_result_vals[of "map snd rs" ls] by (simp add: drop_map)
  have f: "map fst ?ls' = map fst (take (length rs) ls)
                            @ [length h ..< length h + (length rs - length ls)]"
    using s(4) by (simp add: take_map[symmetric] del: take_map)
  have "\<forall>b. b \<notin> fst ` set ls \<and> b < length h \<longrightarrow> lookup h' b = lookup h b"
    using t(6) s(4,5) by simp
  moreover have "\<forall>a \<in> fst ` set (drop (length rs) ls). lookup h' a = None"
    using t(5) dr by simp
  moreover have "length h' = length h + (length rs - length ls)" using t(4) s(4) by simp
  ultimately show ?thesis using res t(2,3) v f
    by (intro exI[of _ h'] exI[of _ lhs'] exI[of _ ?ls']) blast
qed

lemma assign_move_spec:
  assumes wfl: "dll h lhs ls" and wfr: "dll h rhs rs"
    and dis: "fst ` set ls \<inter> fst ` set rs = {}"
    and ok: "heap_ok h" and room: "length h + (length rs - length ls) \<le> max_nodes"
  shows "\<exists>h' lhs' ls'. assign_move moved h lhs rhs = Some (Inr (h', lhs')) \<and>
           dll h' lhs' ls' \<and> map snd ls' = map snd rs \<and>
           dll h' rhs (overwrite rs (map2 moved (map snd ls) (map snd rs))) \<and>
           map fst ls' = map fst (take (length rs) ls)
                           @ [length h ..< length h + (length rs - length ls)] \<and>
           length h' = length h + (length rs - length ls) \<and>
           (\<forall>a \<in> fst ` set (drop (length rs) ls). lookup h' a = None) \<and>
           (\<forall>b. b \<notin> fst ` set ls \<union> fst ` set rs \<and> b < length h \<longrightarrow>
                lookup h' b = lookup h b)"
proof -
  let ?ls1 = "overwrite ls (map snd rs)"
  let ?rs1 = "overwrite rs (map2 moved (map snd ls) (map snd rs))"
  have wfl0: "dll h lhs ([] @ ls)" and wfr0: "dll h rhs ([] @ rs)"
    and dis0: "fst ` set ([] @ ls) \<inter> fst ` set ([] @ rs) = {}"
    using wfl wfr dis by simp_all
  from assign_move_loop_spec[OF wfl0 wfr0 dis0, of moved] obtain h1 where
    s: "assign_move_loop moved h lhs rhs (Iterator (first_ptr rs None))
                                          (Iterator (first_ptr ls None))
          = Some (Inr (h1, Iterator (first_ptr (drop (length ls) rs) None),
                           Iterator (first_ptr (drop (length rs) ls) None)))"
    "dll h1 lhs ([] @ ?ls1)" "dll h1 rhs ([] @ ?rs1)" "length h1 = length h"
    "\<forall>b. b \<notin> fst ` set ls \<union> fst ` set rs \<longrightarrow> lookup h1 b = lookup h b"
    by blast
  have wfl1: "dll h1 lhs ?ls1" and wfr1: "dll h1 rhs ?rs1" using s(2,3) by simp_all
  have ok1: "heap_ok h1" using ok s(4) by (rule heap_ok_same_length)
  have beg: "begin_l rhs = Iterator (first_ptr rs None)" "begin_l lhs = Iterator (first_ptr ls None)"
    using dll_head[OF wfr] dll_head[OF wfl] by (simp_all add: begin_l_def)
  have dis1: "fst ` set ?ls1 \<inter> fst ` set ?rs1 = {}" using dis by simp
  have room1: "length h1 + (length ?rs1 - length ?ls1) \<le> max_nodes" using room s(4) by simp
  let ?ls' = "take (length ?rs1) ?ls1
                @ zip [length h1 ..< length h1 + (length ?rs1 - length ?ls1)]
                      (map snd (drop (length ?ls1) ?rs1))"
  from assign_tail_spec[OF wfl1 wfr1 dis1 ok1 room1] obtain h' lhs' where
    t: "assign_tail h1 lhs rhs (Iterator (first_ptr (drop (length ?ls1) ?rs1) None))
                               (Iterator (first_ptr (drop (length ?rs1) ?ls1) None))
          = Inr (h', lhs')"
    "dll h' lhs' ?ls'" "dll h' rhs ?rs1"
    "length h' = length h1 + (length ?rs1 - length ?ls1)"
    "\<forall>a \<in> fst ` set (drop (length ?rs1) ?ls1). lookup h' a = None"
    "\<forall>b. b \<notin> fst ` set ?ls1 \<and> b < length h1 \<longrightarrow> lookup h' b = lookup h1 b"
    by blast
  have dl: "drop (length rs) ?ls1 = drop (length rs) ls"
    by (simp add: drop_overwrite)
  have drr: "drop (length ls) ?rs1 = drop (length ls) rs"
    by (simp add: drop_overwrite)
  have res: "assign_move moved h lhs rhs = Some (Inr (h', lhs'))"
    using s(1) beg t(1) dl drr by (simp add: assign_move_tail)
  have v: "map snd ?ls' = map snd rs"
    using overwrite_result_vals[of "map snd rs" ls] drr by (simp add: drop_map)
  have f: "map fst ?ls' = map fst (take (length rs) ls)
                            @ [length h ..< length h + (length rs - length ls)]"
    using s(4) by (simp add: take_map[symmetric] del: take_map)
  have "\<forall>b. b \<notin> fst ` set ls \<union> fst ` set rs \<and> b < length h \<longrightarrow> lookup h' b = lookup h b"
    using t(6) s(4,5) by simp
  moreover have "\<forall>a \<in> fst ` set (drop (length rs) ls). lookup h' a = None"
    using t(5) dl by simp
  moreover have "length h' = length h + (length rs - length ls)" using t(4) s(4) by simp
  ultimately show ?thesis using res t(2,3) v f
    by (intro exI[of _ h'] exI[of _ lhs'] exI[of _ ?ls']) blast
qed

lemma push_front_length:
  "push_front h l v = Inr (h1, l1) \<Longrightarrow> length h < max_nodes \<and> length h1 = Suc (length h)"
  by (auto simp: push_front_def new_Node_def update_node_def
           split: sum.splits option.splits prod.splits if_splits)

lemma insert_l_room: "insert_l h l it v = Inr r \<Longrightarrow> length h < max_nodes"
  by (auto simp: insert_l_def new_Node_def split: if_splits)

lemma push_all_room:
  "heap_ok h \<Longrightarrow> push_all h l vs = Inr r \<Longrightarrow> length h + length vs \<le> max_nodes"
proof (induction vs arbitrary: h l)
  case Nil
  then show ?case by (simp add: heap_ok_def)
next
  case (Cons v vs)
  from Cons.prems(2) obtain h1 l1 where p: "push_back h l v = Inr (h1, l1)"
    and q: "push_all h1 l1 vs = Inr r"
    by (auto split: sum.splits)
  have "heap_ok h1" using push_back_length[OF p] by (simp add: heap_ok_def)
  from Cons.IH[OF this q] show ?case using push_back_length[OF p] by simp
qed

lemma assign_il_loop_room:
  assumes "heap_ok h" "dll h l (dn @ rest)"
    "assign_il_loop h l (Iterator (first_ptr rest None)) vs = Inr r"
  shows "length h + (length vs - length rest) \<le> max_nodes"
  using assms
proof (induction vs arbitrary: h l dn rest)
  case Nil
  then show ?case by (simp add: heap_ok_def)
next
  case (Cons item vs)
  show ?case
  proof (cases rest)
    case Nil
    have wf: "dll h l dn" using Cons.prems(2) Nil by simp
    from Cons.prems(3) Nil obtain h1 l1 where p: "push_back h l item = Inr (h1, l1)"
      and q: "assign_il_loop h1 l1 (Iterator None) vs = Inr r"
      by (auto simp: first_ptr_simps end_l_def iter_None split: sum.splits)
    have room: "length h < max_nodes" and len: "length h1 = Suc (length h)"
      using push_back_length[OF p] by simp_all
    have wf1: "dll h1 l1 ((dn @ [(length h, item)]) @ [])"
      using push_back_spec[OF wf room, of item] p by auto
    have ok1: "heap_ok h1" using room len by (simp add: heap_ok_def)
    have "assign_il_loop h1 l1 (Iterator (first_ptr ([] :: (addr \<times> 'a) list) None)) vs = Inr r"
      using q by (simp add: first_ptr_simps)
    from Cons.IH[OF ok1 wf1 this] show ?thesis using len Nil by simp
  next
    case (Cons aw rest')
    obtain a w where aw: "aw = (a, w)" by (cases aw)
    have rest: "rest = (a, w) # rest'" using Cons aw by simp
    have wf: "dll h l (dn @ (a, w) # rest')" using Cons.prems(2) rest by simp
    from dll_set_data[OF wf, of item] obtain n where
      n: "set_ref h a item = Inr (h[a := Some (n\<lparr>data := item\<rparr>)])"
      "dll (h[a := Some (n\<lparr>data := item\<rparr>)]) l (dn @ (a, item) # rest')"
      by blast
    let ?h1 = "h[a := Some (n\<lparr>data := item\<rparr>)]"
    from dll_lookup[OF n(2)] obtain n1 where
      n1: "lookup ?h1 a = Some n1" "pNext n1 = first_ptr rest' None" by blast
    have q: "assign_il_loop ?h1 l (Iterator (first_ptr rest' None)) vs = Inr r"
      using Cons.prems(3) rest n(1) n1
      by (simp add: first_ptr_simps end_l_def iter_deref_def iter_inc_post_Some)
    have wf1: "dll ?h1 l ((dn @ [(a, item)]) @ rest')" using n(2) by simp
    have ok1: "heap_ok ?h1" using Cons.prems(1) by (simp add: heap_ok_def)
    from Cons.IH[OF ok1 wf1 q] show ?thesis using rest by simp
  qed
qed

lemma assign_il_room:
  assumes "heap_ok h" "dll h l ns" "assign_il h l vs = Inr r"
  shows "length h + (length vs - length ns) \<le> max_nodes"
proof -
  from assms(3) obtain r1 where "assign_il_loop h l (begin_l l) vs = Inr r1"
    by (auto simp: assign_il_def split: sum.splits)
  then have "assign_il_loop h l (Iterator (first_ptr ns None)) vs = Inr r1"
    using dll_head[OF assms(2)] by (simp add: begin_l_def)
  then show ?thesis using assign_il_loop_room[OF assms(1), of l "[]" ns vs r1] assms(2) by simp
qed

lemma append_loop_room:
  assumes "heap_ok h" "dll h l ns" "dll h rhs (rd @ rr)"
    "fst ` set ns \<inter> fst ` set (rd @ rr) = {}"
    "append_loop h l rhs (Iterator (first_ptr rr None)) = Inr r"
  shows "length h + length rr \<le> max_nodes"
  using assms
proof (induction rr arbitrary: h l ns rd)
  case Nil
  then show ?case by (simp add: heap_ok_def)
next
  case (Cons x rr)
  obtain a v where x: "x = (a, v)" by (cases x)
  have wfr: "dll h rhs (rd @ (a, v) # rr)" using Cons.prems(3) x by simp
  from dll_lookup[OF wfr] obtain n where
    n: "lookup h a = Some n" "data n = v" "pNext n = first_ptr rr None" by blast
  from Cons.prems(5) n x obtain h1 l1 where p: "push_back h l v = Inr (h1, l1)"
    by (subst (asm) append_loop.simps)
       (auto simp: first_ptr_simps end_l_def iter_deref_def get_ref_def deref_Some
             split: sum.splits)
  have room: "length h < max_nodes" and len: "length h1 = Suc (length h)"
    using push_back_length[OF p] by simp_all
  from push_back_spec[OF Cons.prems(2) room, of v] p have
    q: "dll h1 l1 (ns @ [(length h, v)])"
    "\<forall>b. b \<notin> fst ` set ns \<and> b \<noteq> length h \<longrightarrow> lookup h1 b = lookup h b"
    by auto
  have fr: "\<forall>b \<in> fst ` set (rd @ (a, v) # rr). lookup h1 b = lookup h b"
  proof
    fix b assume b: "b \<in> fst ` set (rd @ (a, v) # rr)"
    then have "b \<notin> fst ` set ns" using Cons.prems(4) x by auto
    moreover have "b \<noteq> length h" using dll_fresh[OF wfr] b by auto
    ultimately show "lookup h1 b = lookup h b" using q(2) by simp
  qed
  have wfr1: "dll h1 rhs ((rd @ [(a, v)]) @ rr)" using dll_frame[OF wfr fr] by simp
  have n1: "lookup h1 a = Some n" using fr n(1) by simp
  have dis1: "fst ` set (ns @ [(length h, v)]) \<inter> fst ` set ((rd @ [(a, v)]) @ rr) = {}"
    using Cons.prems(4) dll_fresh[OF wfr] x by auto
  have ok1: "heap_ok h1" using room len by (simp add: heap_ok_def)
  have step: "append_loop h1 l1 rhs (Iterator (first_ptr rr None)) = Inr r"
    using Cons.prems(5) n p n1 x
    by (subst (asm) append_loop.simps)
       (simp add: first_ptr_simps end_l_def iter_deref_def get_ref_def deref_Some iter_inc_Some)
  from Cons.IH[OF ok1 q(1) wfr1 dis1 step] show ?case using len by simp
qed

lemma assign_tail_room:
  assumes wfl1: "dll h1 lhs ls1" and wfr1: "dll h1 rhs rs1"
    and dis: "fst ` set ls1 \<inter> fst ` set rs1 = {}" and ok1: "heap_ok h1"
    and run: "assign_tail h1 lhs rhs (Iterator (first_ptr (drop (length ls1) rs1) None)) itL = Inr r"
  shows "length h1 + (length rs1 - length ls1) \<le> max_nodes"
proof (cases "length ls1 < length rs1")
  case True
  let ?rr = "drop (length ls1) rs1"
  have ne: "first_ptr ?rr None \<noteq> None" using True by (simp add: first_ptr_None_iff)
  have wfr2: "dll h1 rhs (take (length ls1) rs1 @ ?rr)" using wfr1 by simp
  have dis2: "fst ` set ls1 \<inter> fst ` set (take (length ls1) rs1 @ ?rr) = {}"
    using dis by simp
  from run ne obtain r1 where "append_loop h1 lhs rhs (Iterator (first_ptr ?rr None)) = Inr r1"
    by (auto simp: assign_tail_def end_l_def split: sum.splits)
  from append_loop_room[OF ok1 wfl1 wfr2 dis2 this] show ?thesis by simp
next
  case False
  then show ?thesis using ok1 by (simp add: heap_ok_def)
qed

fun advance :: "'a heap \<Rightarrow> iterator \<Rightarrow> nat \<Rightarrow> error + iterator" where
  "advance h it 0 = Inr it"
| "advance h it (Suc k) =
     (case iter_inc h it of Inl e \<Rightarrow> Inl e | Inr (it1, r) \<Rightarrow> advance h it1 k)"

datatype 'a mutation =
    Push_front 'a
  | Push_back 'a
  | Pop_front
  | Pop_back
  | Insert nat 'a
  | Erase nat
  | Clear
  | Assign_il "'a list"
  | Write nat 'a

fun mutate :: "'a heap \<Rightarrow> custom_list \<Rightarrow> 'a mutation \<Rightarrow> error + ('a heap \<times> custom_list)" where
  "mutate h l (Push_front v) = push_front h l v"
| "mutate h l (Push_back v) = push_back h l v"
| "mutate h l Pop_front = pop_front h l"
| "mutate h l Pop_back = pop_back h l"
| "mutate h l (Insert k v) =
     (case advance h (begin_l l) k of Inl e \<Rightarrow> Inl e
      | Inr it \<Rightarrow>
         (case insert_l h l it v of Inl e \<Rightarrow> Inl e | Inr (h1, l1, r) \<Rightarrow> Inr (h1, l1)))"
| "mutate h l (Erase k) =
     (case advance h (begin_l l) k of Inl e \<Rightarrow> Inl e
      | Inr it \<Rightarrow>
         (case erase h l it of Inl e \<Rightarrow> Inl e | Inr (h1, l1, r) \<Rightarrow> Inr (h1, l1)))"
| "mutate h l Clear = clear h l"
| "mutate h l (Assign_il il) = assign_il h l il"
| "mutate h l (Write k v) =
     (case advance h (begin_l l) k of Inl e \<Rightarrow> Inl e
      | Inr it \<Rightarrow>
         (case iter_deref it of Inl e \<Rightarrow> Inl e
          | Inr r \<Rightarrow> (case set_ref h r v of Inl e \<Rightarrow> Inl e | Inr h1 \<Rightarrow> Inr (h1, l))))"

lemma advance_dlseg:
  "dlseg h pr p ns None \<Longrightarrow>
     advance h (Iterator p) k = Inr (Iterator (first_ptr (drop k ns) None))"
proof (induction k arbitrary: pr p ns)
  case 0
  then show ?case using dlseg_first by force
next
  case (Suc k)
  show ?case
  proof (cases ns)
    case Nil
    then have "p = None" using Suc.prems by simp
    moreover have "dlseg h pr None [] None" by simp
    ultimately show ?thesis using Suc.IH[of pr None "[]"] Nil by (simp add: iter_None)
  next
    case (Cons x ns')
    obtain a v where x: "x = (a, v)" by (cases x)
    from Suc.prems Cons x obtain n where n: "p = Some a" "lookup h a = Some n"
      and seg: "dlseg h (Some a) (pNext n) ns' None"
      by (auto split: option.splits)
    show ?thesis using Suc.IH[OF seg] n Cons by (simp add: iter_inc_Some)
  qed
qed

lemma advance_dll:
  "dll h l ns \<Longrightarrow>
     advance h (begin_l l) k = Inr (Iterator (first_ptr (drop k ns) None))"
  using advance_dlseg[of h None "pHead l" ns k] by (simp add: dll_def begin_l_def)

lemma insert_pos_spec:
  assumes ok: "heap_ok h" and wf: "dll h l (xs @ ys)" and room: "length h < max_nodes"
  shows "\<exists>h' l'. insert_l h l (Iterator (first_ptr ys None)) v
                    = Inr (h', l', Iterator (Some (length h))) \<and>
           dll h' l' (xs @ (length h, v) # ys) \<and> length h' = Suc (length h) \<and>
           (\<forall>b. b \<notin> fst ` set (xs @ ys) \<and> b \<noteq> length h \<longrightarrow> lookup h' b = lookup h b) \<and>
           (ys = [] \<longrightarrow> push_back h l v = Inr (h', l'))"
proof (cases ys)
  case Nil
  from push_back_spec[OF wf room, of v] obtain h' l' where
    p: "push_back h l v = Inr (h', l')" "dll h' l' ((xs @ ys) @ [(length h, v)])"
    "length h' = Suc (length h)"
    "\<forall>b. b \<notin> fst ` set (xs @ ys) \<and> b \<noteq> length h \<longrightarrow> lookup h' b = lookup h b"
    by blast
  have "insert_l h l (Iterator None) v = Inr (h', l', Iterator (Some (length h)))"
    using insert_end_eq_push_back[OF wf ok, of v] p(1) by (simp add: end_l_def)
  then show ?thesis using Nil p by (simp add: first_ptr_simps)
next
  case (Cons pp ys')
  obtain pos pv where pp: "pp = (pos, pv)" by (cases pp)
  have ys: "ys = (pos, pv) # ys'" using Cons pp by simp
  have wf1: "dll h l (xs @ (pos, pv) # ys')" using wf ys by simp
  from insert_before_spec[OF wf1 ok room, of v] show ?thesis
    using ys by (simp add: first_ptr_simps)
qed

lemma assign_il_spec:
  assumes wf: "dll h l ns" and room: "length h + (length vs - length ns) \<le> max_nodes"
  shows "\<exists>h' l' ns'. assign_il h l vs = Inr (h', l') \<and> dll h' l' ns' \<and>
           map snd ns' = vs \<and>
           map fst ns' = map fst (take (length vs) ns)
                           @ [length h ..< length h + (length vs - length ns)] \<and>
           length h' = length h + (length vs - length ns) \<and>
           (\<forall>a \<in> fst ` set (drop (length vs) ns). lookup h' a = None) \<and>
           (\<forall>b. b \<notin> fst ` set ns \<and> b < length h \<longrightarrow> lookup h' b = lookup h b)"
proof -
  let ?rest = "drop (length vs) ns"
  have wf0: "dll h l ([] @ ns)" using wf by simp
  from assign_il_loop_spec[OF wf0 room] obtain h1 l1 dn where
    s: "assign_il_loop h l (Iterator (first_ptr ns None)) vs
          = Inr (h1, l1, Iterator (first_ptr ?rest None))"
    "dll h1 l1 ([] @ dn @ ?rest)" "map snd dn = vs"
    "map fst dn = map fst (take (length vs) ns)
                    @ [length h ..< length h + (length vs - length ns)]"
    "length h1 = length h + (length vs - length ns)"
    "\<forall>b. b \<notin> fst ` set ([] @ ns) \<and> b < length h \<longrightarrow> lookup h1 b = lookup h b"
    by blast
  have wf1: "dll h1 l1 (dn @ ?rest)" using s(2) by simp
  from erase_loop_spec[OF wf1] obtain h' l' where
    e: "erase_loop h1 l1 (Iterator (first_ptr ?rest None)) = Inr (h', l', Iterator None)"
    "dll h' l' dn" "length h' = length h1"
    "\<forall>a \<in> fst ` set ?rest. lookup h' a = None"
    "\<forall>b. b \<notin> fst ` set (dn @ ?rest) \<longrightarrow> lookup h' b = lookup h1 b"
    by blast
  have hd: "begin_l l = Iterator (first_ptr ns None)"
    using dll_head[OF wf] by (simp add: begin_l_def)
  have res: "assign_il h l vs = Inr (h', l')"
  proof (cases "first_ptr ?rest None")
    case None
    then have "h' = h1" "l' = l1" using e(1) by simp_all
    then show ?thesis using s(1) hd None by (simp add: assign_il_def end_l_def)
  next
    case (Some a)
    then show ?thesis using s(1) hd e(1) by (simp add: assign_il_def end_l_def)
  qed
  have fr: "\<forall>b. b \<notin> fst ` set ns \<and> b < length h \<longrightarrow> lookup h' b = lookup h b"
  proof (intro allI impI)
    fix b assume b: "b \<notin> fst ` set ns \<and> b < length h"
    have "b \<notin> set (map fst (take (length vs) ns))"
      using b by (auto dest: in_set_takeD)
    moreover have "b \<notin> set [length h ..< length h + (length vs - length ns)]" using b by simp
    ultimately have "b \<notin> fst ` set dn" using s(4) by (metis set_append set_map UnE)
    moreover have "b \<notin> fst ` set ?rest" using b by (auto dest: in_set_dropD)
    ultimately have "lookup h' b = lookup h1 b" using e(5) by (simp add: image_Un)
    then show "lookup h' b = lookup h b" using s(6) b by simp
  qed
  have "length h' = length h + (length vs - length ns)" using e(3) s(5) by simp
  then show ?thesis using res e(2,4) s(3,4) fr
    by (intro exI[of _ h'] exI[of _ l'] exI[of _ dn]) blast
qed

definition step_ok ::
  "'a heap \<Rightarrow> (addr \<times> 'a) list \<Rightarrow> 'a heap \<Rightarrow> (addr \<times> 'a) list \<Rightarrow> bool" where
  "step_ok h ns h' ns' =
     (length h \<le> length h' \<and> length h' \<le> max_nodes \<and>
      fst ` set ns' \<subseteq> fst ` set ns \<union> {length h ..< length h'} \<and>
      (\<forall>b. b \<notin> fst ` set ns \<and> b < length h \<longrightarrow> lookup h' b = lookup h b))"

lemma step_ok_alloc:
  assumes "length h < max_nodes" "length h' = Suc (length h)"
    "fst ` set ns' \<subseteq> insert (length h) (fst ` set ns)"
    "\<forall>b. b \<notin> fst ` set ns \<and> b \<noteq> length h \<longrightarrow> lookup h' b = lookup h b"
  shows "step_ok h ns h' ns'"
  using assms by (auto simp: step_ok_def)

lemma step_ok_same:
  assumes "heap_ok h" "length h' = length h" "fst ` set ns' \<subseteq> fst ` set ns"
    "\<forall>b. b \<notin> fst ` set ns \<longrightarrow> lookup h' b = lookup h b"
  shows "step_ok h ns h' ns'"
  using assms by (auto simp: step_ok_def heap_ok_def)

lemma mutate_spec:
  assumes wf: "dll h l ns" and ok: "heap_ok h" and run: "mutate h l m = Inr (h', l')"
  shows "\<exists>ns'. dll h' l' ns' \<and> step_ok h ns h' ns'"
proof (cases m)
  case (Push_front v)
  then have p: "push_front h l v = Inr (h', l')" using run by simp
  have room: "length h < max_nodes" using push_front_length[OF p] by simp
  from push_front_spec[OF wf room, of v] p
  have r: "dll h' l' ((length h, v) # ns)" "length h' = Suc (length h)"
    "\<forall>b. b \<notin> fst ` set ns \<and> b \<noteq> length h \<longrightarrow> lookup h' b = lookup h b"
    by auto
  have "step_ok h ns h' ((length h, v) # ns)"
    using room r(2,3) by (intro step_ok_alloc) auto
  then show ?thesis using r(1) by blast
next
  case (Push_back v)
  then have p: "push_back h l v = Inr (h', l')" using run by simp
  have room: "length h < max_nodes" using push_back_length[OF p] by simp
  from push_back_spec[OF wf room, of v] p
  have r: "dll h' l' (ns @ [(length h, v)])" "length h' = Suc (length h)"
    "\<forall>b. b \<notin> fst ` set ns \<and> b \<noteq> length h \<longrightarrow> lookup h' b = lookup h b"
    by auto
  have "step_ok h ns h' (ns @ [(length h, v)])"
    using room r(2,3) by (intro step_ok_alloc) auto
  then show ?thesis using r(1) by blast
next
  case Pop_front
  show ?thesis
  proof (cases ns)
    case Nil
    then have "pop_front h l = Inr (h, l)" using wf by (simp add: pop_front_def dll_def erase_def)
    then have "h' = h" "l' = l" using run Pop_front by simp_all
    moreover have "step_ok h ns h ns" using ok by (intro step_ok_same) auto
    ultimately show ?thesis using wf by blast
  next
    case (Cons x ns')
    obtain a v where x: "x = (a, v)" by (cases x)
    have wf': "dll h l ([] @ (a, v) # ns')" using wf Cons x by simp
    have hd: "pHead l = Some a" using dll_head[OF wf'] by (simp add: first_ptr_simps)
    from erase_spec[OF wf'] run Pop_front hd
    have r: "dll h' l' ([] @ ns')" "length h' = length h"
      "\<forall>b. b \<notin> fst ` set ([] @ (a, v) # ns') \<longrightarrow> lookup h' b = lookup h b"
      by (auto simp: pop_front_def)
    have "step_ok h ns h' ns'" using ok r(2,3) Cons x by (intro step_ok_same) auto
    then show ?thesis using r(1) by auto
  qed
next
  case Pop_back
  show ?thesis
  proof (cases ns rule: rev_cases)
    case Nil
    then have "pop_back h l = Inr (h, l)"
      using wf by (simp add: pop_back_def dll_def erase_def last_ptr_def)
    then have "h' = h" "l' = l" using run Pop_back by simp_all
    moreover have "step_ok h ns h ns" using ok by (intro step_ok_same) auto
    ultimately show ?thesis using wf by blast
  next
    case (snoc ns' x)
    obtain a v where x: "x = (a, v)" by (cases x)
    have wf': "dll h l (ns' @ (a, v) # [])" using wf snoc x by simp
    have tl: "pTail l = Some a" using dll_tail[OF wf'] by (simp add: last_ptr_simps)
    from erase_spec[OF wf'] run Pop_back tl
    have r: "dll h' l' (ns' @ [])" "length h' = length h"
      "\<forall>b. b \<notin> fst ` set (ns' @ (a, v) # []) \<longrightarrow> lookup h' b = lookup h b"
      by (auto simp: pop_back_def)
    have "step_ok h ns h' ns'" using ok r(2,3) snoc x by (intro step_ok_same) auto
    then show ?thesis using r(1) by auto
  qed
next
  case (Insert k v)
  have wf': "dll h l (take k ns @ drop k ns)" using wf by simp
  from run Insert obtain r where
    i: "insert_l h l (Iterator (first_ptr (drop k ns) None)) v = Inr (h', l', r)"
    using advance_dll[OF wf, of k] by (auto split: sum.splits)
  have room: "length h < max_nodes" using insert_l_room[OF i] .
  from insert_pos_spec[OF ok wf' room, of v] i
  have r: "dll h' l' (take k ns @ (length h, v) # drop k ns)" "length h' = Suc (length h)"
    "\<forall>b. b \<notin> fst ` set (take k ns @ drop k ns) \<and> b \<noteq> length h \<longrightarrow> lookup h' b = lookup h b"
    by auto
  have sub: "fst ` set (take k ns @ (length h, v) # drop k ns) \<subseteq> insert (length h) (fst ` set ns)"
    by (auto dest: in_set_takeD in_set_dropD)
  have "step_ok h ns h' (take k ns @ (length h, v) # drop k ns)"
    using room r(2,3) sub by (intro step_ok_alloc) simp_all
  then show ?thesis using r(1) by blast
next
  case (Erase k)
  from run Erase obtain r where
    e: "erase h l (Iterator (first_ptr (drop k ns) None)) = Inr (h', l', r)"
    using advance_dll[OF wf, of k] by (auto split: sum.splits)
  show ?thesis
  proof (cases "drop k ns")
    case Nil
    then have "h' = h" "l' = l" using e by (simp_all add: first_ptr_simps erase_def)
    moreover have "step_ok h ns h ns" using ok by (intro step_ok_same) auto
    ultimately show ?thesis using wf by blast
  next
    case (Cons x ys)
    obtain a v where x: "x = (a, v)" by (cases x)
    have ns: "ns = take k ns @ (a, v) # ys" using Cons x by (metis append_take_drop_id)
    have wf': "dll h l (take k ns @ (a, v) # ys)" using wf ns by simp
    from erase_spec[OF wf'] e Cons x
    have r: "dll h' l' (take k ns @ ys)" "length h' = length h"
      "\<forall>b. b \<notin> fst ` set (take k ns @ (a, v) # ys) \<longrightarrow> lookup h' b = lookup h b"
      by (auto simp: first_ptr_simps)
    have "fst ` set (take k ns @ ys) \<subseteq> fst ` set (take k ns @ (a, v) # ys)" by auto
    then have sub: "fst ` set (take k ns @ ys) \<subseteq> fst ` set ns" using ns by simp
    have "\<forall>b. b \<notin> fst ` set ns \<longrightarrow> lookup h' b = lookup h b" using r(3) ns by simp
    then have "step_ok h ns h' (take k ns @ ys)" using ok r(2) sub by (intro step_ok_same)
    then show ?thesis using r(1) by blast
  qed
next
  case Clear
  from clear_spec[OF wf] run Clear
  have r: "dll h' l' []" "length h' = length h"
    "\<forall>b. b \<notin> fst ` set ns \<longrightarrow> lookup h' b = lookup h b"
    by auto
  have "step_ok h ns h' []" using ok r(2,3) by (intro step_ok_same) auto
  then show ?thesis using r(1) by blast
next
  case (Assign_il vs)
  then have a: "assign_il h l vs = Inr (h', l')" using run by simp
  have room: "length h + (length vs - length ns) \<le> max_nodes"
    using assign_il_room[OF ok wf a] .
  from assign_il_spec[OF wf room] a obtain ns' where
    r: "dll h' l' ns'"
    "map fst ns' = map fst (take (length vs) ns)
                     @ [length h ..< length h + (length vs - length ns)]"
    "length h' = length h + (length vs - length ns)"
    "\<forall>b. b \<notin> fst ` set ns \<and> b < length h \<longrightarrow> lookup h' b = lookup h b"
    by auto
  have "set (map fst ns') \<subseteq> fst ` set ns \<union> {length h ..< length h'}"
    unfolding r(2) using r(3) by (auto dest: in_set_takeD)
  then have "fst ` set ns' \<subseteq> fst ` set ns \<union> {length h ..< length h'}" by simp
  then have "step_ok h ns h' ns'" using r(3,4) room by (simp add: step_ok_def)
  then show ?thesis using r(1) by blast
next
  case (Write k v)
  from run Write obtain a where
    d: "first_ptr (drop k ns) None = Some a" and s: "set_ref h a v = Inr h'" and l: "l' = l"
    using advance_dll[OF wf, of k]
    by (auto simp: iter_deref_def split: sum.splits option.splits)
  from d obtain w ys where dk: "drop k ns = (a, w) # ys"
    by (cases "drop k ns") (auto simp: first_ptr_def)
  have ns: "ns = take k ns @ (a, w) # ys" using dk by (metis append_take_drop_id)
  have wf': "dll h l (take k ns @ (a, w) # ys)" using wf ns by simp
  from dll_set_data[OF wf', of v] s obtain n where
    r: "h' = h[a := Some (n\<lparr>data := v\<rparr>)]" "dll h' l (take k ns @ (a, v) # ys)"
    by auto
  have ain: "a \<in> fst ` set ns" using ns by (metis fst_conv image_eqI in_set_conv_decomp)
  have "fst ` set (take k ns @ (a, v) # ys) = fst ` set (take k ns @ (a, w) # ys)" by simp
  then have sub: "fst ` set (take k ns @ (a, v) # ys) \<subseteq> fst ` set ns" using ns by simp
  have "\<forall>b. b \<notin> fst ` set ns \<longrightarrow> lookup h' b = lookup h b" using r(1) ain by auto
  then have "step_ok h ns h' (take k ns @ (a, v) # ys)"
    using ok r(1) sub by (intro step_ok_same) simp_all
  then show ?thesis using r(2) l by blast
qed

lemma mutate_frame:
  assumes wf: "dll h l ns" and ok: "heap_ok h" and other: "dll h l2 ns2"
    and dis: "fst ` set ns \<inter> fst ` set ns2 = {}"
    and run: "mutate h l m = Inr (h', l')"
  shows "dll h' l2 ns2"
proof -
  from mutate_spec[OF wf ok run] obtain ns' where s: "step_ok h ns h' ns'" by blast
  have "\<forall>a \<in> fst ` set ns2. lookup h' a = lookup h a"
  proof
    fix a assume a: "a \<in> fst ` set ns2"
    then have "a \<notin> fst ` set ns" using dis by auto
    moreover have "a < length h" using dll_live[OF other] a by blast
    ultimately show "lookup h' a = lookup h a" using s by (simp add: step_ok_def)
  qed
  then show ?thesis using dll_frame[OF other] by simp
qed

section \<open>Programs over several lists\<close>

text \<open>
  A caller owns any number of lists in one store. A program is a sequence of the operations
  of the interface, each naming the lists it works on by their place in the order of
  construction; an iterator handed to \<^verbatim>\<open>insert\<close>, \<^verbatim>\<open>erase\<close> or written through is a position
  of the list it is handed to, reached from \<^verbatim>\<open>begin()\<close> by \<^verbatim>\<open>++\<close>. The function \<open>moved\<close> is
  what the move assignment of the element type leaves behind in its source. The first error ends the run.
\<close>

record 'a program_state =
  heap :: "'a heap"
  lists :: "custom_list list"

definition initial_state :: "'a program_state" where
  "initial_state = \<lparr>heap = [], lists = []\<rparr>"

datatype 'a operation =
    Construct_default
  | Construct_fill "64 word" 'a
  | Construct_il "'a list"
  | Construct_range "'a list"
  | Construct_copy nat
  | Construct_move nat
  | Mutate nat "'a mutation"
  | Copy_assign nat nat
  | Move_assign nat nat
  | Swap nat nat

definition new_list ::
  "'a program_state \<Rightarrow> error + ('a heap \<times> custom_list) \<Rightarrow> error + 'a program_state" where
  "new_list s r =
     (case r of Inl e \<Rightarrow> Inl e | Inr (h, l) \<Rightarrow> Inr \<lparr>heap = h, lists = lists s @ [l]\<rparr>)"

definition put_list ::
  "'a program_state \<Rightarrow> nat \<Rightarrow> error + ('a heap \<times> custom_list) \<Rightarrow> error + 'a program_state" where
  "put_list s i r =
     (case r of Inl e \<Rightarrow> Inl e | Inr (h, l) \<Rightarrow> Inr \<lparr>heap = h, lists = (lists s)[i := l]\<rparr>)"

fun exec :: "('a \<Rightarrow> 'a \<Rightarrow> 'a) \<Rightarrow> 'a program_state \<Rightarrow> 'a operation \<Rightarrow> (error + 'a program_state) option" where
  "exec moved s Construct_default = Some (new_list s (Inr (heap s, list_default)))"
| "exec moved s (Construct_fill num t) = Some (new_list s (list_fill (heap s) num t))"
| "exec moved s (Construct_il il) = Some (new_list s (list_il (heap s) il))"
| "exec moved s (Construct_range elems) = Some (new_list s (list_range (heap s) elems))"
| "exec moved s (Construct_copy j) =
     (if j < length (lists s)
      then map_option (new_list s) (list_copy (heap s) (lists s ! j))
      else Some (Inl NoSuchList))"
| "exec moved s (Construct_move j) =
     (if j < length (lists s)
      then (case list_move (lists s ! j) of
              (l, r) \<Rightarrow> Some (Inr (s\<lparr>lists := (lists s)[j := r] @ [l]\<rparr>)))
      else Some (Inl NoSuchList))"
| "exec moved s (Mutate i m) =
     (if i < length (lists s)
      then Some (put_list s i (mutate (heap s) (lists s ! i) m))
      else Some (Inl NoSuchList))"
| "exec moved s (Copy_assign i j) =
     (if i < length (lists s) \<and> j < length (lists s)
      then map_option (put_list s i) (assign_copy (heap s) (lists s ! i) (lists s ! j))
      else Some (Inl NoSuchList))"
| "exec moved s (Move_assign i j) =
     (if i < length (lists s) \<and> j < length (lists s)
      then map_option (put_list s i) (assign_move moved (heap s) (lists s ! i) (lists s ! j))
      else Some (Inl NoSuchList))"
| "exec moved s (Swap i j) =
     (if i < length (lists s) \<and> j < length (lists s)
      then (case swap_l (lists s ! i) (lists s ! j) of
              (a, b) \<Rightarrow> Some (Inr (s\<lparr>lists := (lists s)[i := a, j := b]\<rparr>)))
      else Some (Inl NoSuchList))"

fun run :: "('a \<Rightarrow> 'a \<Rightarrow> 'a) \<Rightarrow> 'a program_state \<Rightarrow> 'a operation list \<Rightarrow> (error + 'a program_state) option" where
  "run moved s [] = Some (Inr s)"
| "run moved s (c # cs) =
     (case exec moved s c of
        None \<Rightarrow> None
      | Some (Inl e) \<Rightarrow> Some (Inl e)
      | Some (Inr s1) \<Rightarrow> run moved s1 cs)"

subsection \<open>Self-assignment and the room an assignment needs\<close>

lemma assign_copy_room:
  assumes wfl: "dll h lhs ls" and wfr: "dll h rhs rs"
    and dis: "fst ` set ls \<inter> fst ` set rs = {}" and ok: "heap_ok h"
    and run: "assign_copy h lhs rhs = Some (Inr r)"
  shows "length h + (length rs - length ls) \<le> max_nodes"
proof -
  let ?ls1 = "overwrite ls (map snd rs)"
  have wfl0: "dll h lhs ([] @ ls)" and wfr0: "dll h rhs ([] @ rs)"
    and dis0: "fst ` set ([] @ ls) \<inter> fst ` set ([] @ rs) = {}"
    using wfl wfr dis by simp_all
  from assign_copy_loop_spec[OF wfl0 wfr0 dis0] obtain h1 where
    s: "assign_copy_loop h lhs rhs (Iterator (first_ptr rs None)) (Iterator (first_ptr ls None))
          = Some (Inr (h1, Iterator (first_ptr (drop (length ls) rs) None),
                           Iterator (first_ptr (drop (length rs) ls) None)))"
    "dll h1 lhs ([] @ ?ls1)" "dll h1 rhs ([] @ rs)" "length h1 = length h"
    by blast
  have wfl1: "dll h1 lhs ?ls1" and wfr1: "dll h1 rhs rs" using s(2,3) by simp_all
  have ok1: "heap_ok h1" using ok s(4) by (rule heap_ok_same_length)
  have beg: "begin_l rhs = Iterator (first_ptr rs None)" "begin_l lhs = Iterator (first_ptr ls None)"
    using dll_head[OF wfr] dll_head[OF wfl] by (simp_all add: begin_l_def)
  have dis1: "fst ` set ?ls1 \<inter> fst ` set rs = {}" using dis by simp
  have t: "assign_tail h1 lhs rhs (Iterator (first_ptr (drop (length ?ls1) rs) None))
             (Iterator (first_ptr (drop (length rs) ls) None)) = Inr r"
    using run s(1) beg by (simp add: assign_copy_tail)
  from assign_tail_room[OF wfl1 wfr1 dis1 ok1 t] show ?thesis using s(4) by simp
qed

lemma assign_move_room:
  assumes wfl: "dll h lhs ls" and wfr: "dll h rhs rs"
    and dis: "fst ` set ls \<inter> fst ` set rs = {}" and ok: "heap_ok h"
    and run: "assign_move moved h lhs rhs = Some (Inr r)"
  shows "length h + (length rs - length ls) \<le> max_nodes"
proof -
  let ?ls1 = "overwrite ls (map snd rs)"
  let ?rs1 = "overwrite rs (map2 moved (map snd ls) (map snd rs))"
  have wfl0: "dll h lhs ([] @ ls)" and wfr0: "dll h rhs ([] @ rs)"
    and dis0: "fst ` set ([] @ ls) \<inter> fst ` set ([] @ rs) = {}"
    using wfl wfr dis by simp_all
  from assign_move_loop_spec[OF wfl0 wfr0 dis0, of moved] obtain h1 where
    s: "assign_move_loop moved h lhs rhs (Iterator (first_ptr rs None))
                                          (Iterator (first_ptr ls None))
          = Some (Inr (h1, Iterator (first_ptr (drop (length ls) rs) None),
                           Iterator (first_ptr (drop (length rs) ls) None)))"
    "dll h1 lhs ([] @ ?ls1)" "dll h1 rhs ([] @ ?rs1)" "length h1 = length h"
    by blast
  have wfl1: "dll h1 lhs ?ls1" and wfr1: "dll h1 rhs ?rs1" using s(2,3) by simp_all
  have ok1: "heap_ok h1" using ok s(4) by (rule heap_ok_same_length)
  have beg: "begin_l rhs = Iterator (first_ptr rs None)" "begin_l lhs = Iterator (first_ptr ls None)"
    using dll_head[OF wfr] dll_head[OF wfl] by (simp_all add: begin_l_def)
  have dis1: "fst ` set ?ls1 \<inter> fst ` set ?rs1 = {}" using dis by simp
  have drr: "drop (length ls) ?rs1 = drop (length ls) rs"
    by (simp add: drop_overwrite)
  have t: "assign_tail h1 lhs rhs (Iterator (first_ptr (drop (length ?ls1) ?rs1) None))
             (Iterator (first_ptr (drop (length rs) ls) None)) = Inr r"
    using run s(1) beg drr by (simp add: assign_move_tail)
  from assign_tail_room[OF wfl1 wfr1 dis1 ok1 t] show ?thesis using s(4) by simp
qed

lemma update_same_node: "lookup h a = Some n \<Longrightarrow> h[a := Some (n\<lparr>data := data n\<rparr>)] = h"
  by (simp add: lookup_def list_update_same_conv split: if_splits)

lemma assign_copy_loop_self:
  "dlseg h pr p ns None \<Longrightarrow>
     assign_copy_loop h l l (Iterator p) (Iterator p)
       = Some (Inr (h, Iterator None, Iterator None))"
proof (induction ns arbitrary: pr p)
  case Nil
  then show ?case by (subst assign_copy_loop.simps) (simp add: end_l_def)
next
  case (Cons x ns)
  obtain a v where x: "x = (a, v)" by (cases x)
  from Cons.prems obtain n where n: "p = Some a" "lookup h a = Some n" "data n = v"
    and seg: "dlseg h (Some a) (pNext n) ns None"
    by (auto simp: x split: option.splits)
  have "set_ref h a v = Inr h"
    using n update_same_node[OF n(2)] by (simp add: set_ref_def update_node_Some)
  then show ?case using n Cons.IH[OF seg]
    by (subst assign_copy_loop.simps)
       (simp add: end_l_def iter_deref_def get_ref_def deref_Some iter_inc_Some)
qed

lemma clear_empty: "dll h l [] \<Longrightarrow> clear h l = Inr (h, l)"
  by (simp add: clear_def dll_def last_ptr_def clear_loop.simps)

lemma assign_copy_self:
  assumes wf: "dll h l ns" and ok: "heap_ok h"
  shows "assign_copy h l l = Some (Inr (h, l))"
proof -
  have "assign_copy_loop h l l (begin_l l) (begin_l l)
          = Some (Inr (h, Iterator None, Iterator None))"
    using wf assign_copy_loop_self[of h None "pHead l" ns l]
    by (simp add: dll_def begin_l_def)
  moreover have "empty_l l \<Longrightarrow> clear h l = Inr (h, l)"
    using dll_empty_iff[OF wf ok] wf clear_empty by auto
  ultimately show ?thesis by (auto simp: assign_copy_def end_l_def)
qed

lemma assign_move_loop_self:
  assumes "dll h l (dn @ rest)"
  shows "\<exists>h'. assign_move_loop moved h l l (Iterator (first_ptr rest None))
                                              (Iterator (first_ptr rest None))
             = Some (Inr (h', Iterator None, Iterator None)) \<and>
           dll h' l (dn @ map (\<lambda>(a, v). (a, moved v v)) rest) \<and> length h' = length h \<and>
           (\<forall>b. b \<notin> fst ` set rest \<longrightarrow> lookup h' b = lookup h b)"
  using assms
proof (induction rest arbitrary: h dn)
  case Nil
  then show ?case by (subst assign_move_loop.simps) (simp add: end_l_def first_ptr_simps)
next
  case (Cons x rest)
  obtain a v where x: "x = (a, v)" by (cases x)
  have wf: "dll h l (dn @ (a, v) # rest)" using Cons.prems x by simp
  from dll_lookup[OF wf] obtain n where n: "lookup h a = Some n" "data n = v" by blast
  have s1: "set_ref h a v = Inr h"
    using n update_same_node[OF n(1)] by (simp add: set_ref_def update_node_Some)
  from dll_set_data[OF wf, of "moved v v"] n(1) have
    s2: "set_ref h a (moved v v) = Inr (h[a := Some (n\<lparr>data := moved v v\<rparr>)])"
    "dll (h[a := Some (n\<lparr>data := moved v v\<rparr>)]) l (dn @ (a, moved v v) # rest)"
    by auto
  let ?h2 = "h[a := Some (n\<lparr>data := moved v v\<rparr>)]"
  from dll_lookup[OF s2(2)] obtain n2 where
    n2: "lookup ?h2 a = Some n2" "pNext n2 = first_ptr rest None" by blast
  have wf2: "dll ?h2 l ((dn @ [(a, moved v v)]) @ rest)" using s2(2) by simp
  from Cons.IH[OF wf2] obtain h' where
    r: "assign_move_loop moved ?h2 l l (Iterator (first_ptr rest None))
                                        (Iterator (first_ptr rest None))
          = Some (Inr (h', Iterator None, Iterator None))"
    "dll h' l ((dn @ [(a, moved v v)]) @ map (\<lambda>(a, v). (a, moved v v)) rest)"
    "length h' = length ?h2"
    "\<forall>b. b \<notin> fst ` set rest \<longrightarrow> lookup h' b = lookup ?h2 b"
    by blast
  have step: "assign_move_loop moved h l l (Iterator (first_ptr (x # rest) None))
                                            (Iterator (first_ptr (x # rest) None))
                = assign_move_loop moved ?h2 l l (Iterator (first_ptr rest None))
                                                  (Iterator (first_ptr rest None))"
    using n s1 s2(1) n2 x
    by (subst assign_move_loop.simps)
       (simp add: first_ptr_simps end_l_def iter_deref_def get_ref_def deref_Some iter_inc_Some)
  have "\<forall>b. b \<notin> fst ` set (x # rest) \<longrightarrow> lookup h' b = lookup h b"
    using r(4) x by auto
  then show ?case using step r(1,2,3) x by simp
qed

lemma assign_move_self:
  assumes wf: "dll h l ns" and ok: "heap_ok h"
  shows "\<exists>h'. assign_move moved h l l = Some (Inr (h', l)) \<and>
           dll h' l (map (\<lambda>(a, v). (a, moved v v)) ns) \<and> length h' = length h \<and>
           (\<forall>b. b \<notin> fst ` set ns \<longrightarrow> lookup h' b = lookup h b)"
proof -
  have wf0: "dll h l ([] @ ns)" using wf by simp
  from assign_move_loop_self[OF wf0, of moved] obtain h' where
    r: "assign_move_loop moved h l l (Iterator (first_ptr ns None)) (Iterator (first_ptr ns None))
          = Some (Inr (h', Iterator None, Iterator None))"
    "dll h' l ([] @ map (\<lambda>(a, v). (a, moved v v)) ns)" "length h' = length h"
    "\<forall>b. b \<notin> fst ` set ns \<longrightarrow> lookup h' b = lookup h b"
    by blast
  have wf': "dll h' l (map (\<lambda>(a, v). (a, moved v v)) ns)" using r(2) by simp
  have ok': "heap_ok h'" using ok r(3) by (rule heap_ok_same_length)
  have beg: "begin_l l = Iterator (first_ptr ns None)"
    using dll_head[OF wf] by (simp add: begin_l_def)
  have "empty_l l \<Longrightarrow> clear h' l = Inr (h', l)"
    using dll_empty_iff[OF wf ok] wf' clear_empty by auto
  then have "assign_move moved h l l = Some (Inr (h', l))"
    using r(1) beg by (auto simp: assign_move_def end_l_def)
  then show ?thesis using wf' r(3,4) by blast
qed

subsection \<open>All lists of a program are well formed and share no node\<close>

definition sys_inv :: "'a program_state \<Rightarrow> (nat \<Rightarrow> (addr \<times> 'a) list) \<Rightarrow> bool" where
  "sys_inv s nss =
     (heap_ok (heap s) \<and>
      (\<forall>i < length (lists s). dll (heap s) (lists s ! i) (nss i)) \<and>
      (\<forall>i < length (lists s). \<forall>j < length (lists s).
          i \<noteq> j \<longrightarrow> fst ` set (nss i) \<inter> fst ` set (nss j) = {}))"

lemma sys_inv_initial: "sys_inv initial_state (\<lambda>i. [])"
  by (simp add: sys_inv_def initial_state_def heap_ok_def)

lemma sys_inv_dll: "sys_inv s nss \<Longrightarrow> i < length (lists s) \<Longrightarrow> dll (heap s) (lists s ! i) (nss i)"
  by (simp add: sys_inv_def)

lemma sys_inv_disjoint:
  "sys_inv s nss \<Longrightarrow> i < length (lists s) \<Longrightarrow> j < length (lists s) \<Longrightarrow> i \<noteq> j \<Longrightarrow>
     fst ` set (nss i) \<inter> fst ` set (nss j) = {}"
  by (simp add: sys_inv_def)

lemma sys_inv_ok: "sys_inv s nss \<Longrightarrow> heap_ok (heap s)"
  by (simp add: sys_inv_def)

lemma other_kept:
  assumes wf: "dll h l2 ns2" and dis: "fst ` set ns \<inter> fst ` set ns2 = {}"
    and fr: "\<forall>b. b \<notin> fst ` set ns \<and> b < length h \<longrightarrow> lookup h' b = lookup h b"
  shows "dll h' l2 ns2"
proof -
  have "\<forall>a \<in> fst ` set ns2. lookup h' a = lookup h a"
  proof
    fix a assume a: "a \<in> fst ` set ns2"
    then have "a \<notin> fst ` set ns" using dis by auto
    moreover have "a < length h" using dll_live[OF wf] a by blast
    ultimately show "lookup h' a = lookup h a" using fr by simp
  qed
  from dll_frame[OF wf this] show ?thesis .
qed

lemma grown_disjoint:
  assumes wf: "dll h l2 ns2" and dis: "fst ` set ns \<inter> fst ` set ns2 = {}"
    and sub: "fst ` set ns' \<subseteq> fst ` set ns \<union> {length h ..< length h'}"
  shows "fst ` set ns' \<inter> fst ` set ns2 = {}"
proof -
  have "\<forall>a \<in> fst ` set ns2. a < length h" using dll_live[OF wf] .
  then have "fst ` set ns2 \<inter> {length h ..< length h'} = {}" by fastforce
  then show ?thesis using dis sub by blast
qed

lemma sys_inv_put:
  assumes inv: "sys_inv s nss" and i: "i < length (lists s)"
    and wf': "dll h' l' ns'" and st: "step_ok (heap s) (nss i) h' ns'"
  shows "sys_inv \<lparr>heap = h', lists = (lists s)[i := l']\<rparr> (nss(i := ns'))"
proof -
  let ?h = "heap s"
  have fr: "\<forall>b. b \<notin> fst ` set (nss i) \<and> b < length ?h \<longrightarrow> lookup h' b = lookup ?h b"
    and sub: "fst ` set ns' \<subseteq> fst ` set (nss i) \<union> {length ?h ..< length h'}"
    and ok': "heap_ok h'"
    using st by (simp_all add: step_ok_def heap_ok_def)
  have a: "dll h' (lists s ! j) (nss j)" if "j < length (lists s)" "j \<noteq> i" for j
    using other_kept[OF sys_inv_dll[OF inv that(1)] sys_inv_disjoint[OF inv i that(1)] fr] that(2)
    by simp
  have b: "fst ` set ns' \<inter> fst ` set (nss j) = {}" if "j < length (lists s)" "j \<noteq> i" for j
    using grown_disjoint[OF sys_inv_dll[OF inv that(1)] sys_inv_disjoint[OF inv i that(1)] sub] that(2)
    by simp
  have c: "fst ` set (nss j) \<inter> fst ` set (nss k) = {}"
    if "j < length (lists s)" "k < length (lists s)" "j \<noteq> k" for j k
    using sys_inv_disjoint[OF inv that] .
  show ?thesis
    unfolding sys_inv_def
  proof (intro conjI allI impI)
    show "heap_ok (heap \<lparr>heap = h', lists = (lists s)[i := l']\<rparr>)" using ok' by simp
  next
    fix j assume "j < length (lists \<lparr>heap = h', lists = (lists s)[i := l']\<rparr>)"
    then show "dll (heap \<lparr>heap = h', lists = (lists s)[i := l']\<rparr>)
                 (lists \<lparr>heap = h', lists = (lists s)[i := l']\<rparr> ! j) ((nss(i := ns')) j)"
      using a[of j] wf' i by (cases "j = i") simp_all
  next
    fix j k assume "j < length (lists \<lparr>heap = h', lists = (lists s)[i := l']\<rparr>)"
      "k < length (lists \<lparr>heap = h', lists = (lists s)[i := l']\<rparr>)" "j \<noteq> k"
    then show "fst ` set ((nss(i := ns')) j) \<inter> fst ` set ((nss(i := ns')) k) = {}"
      using b[of j] b[of k] c[of j k] by (cases "j = i"; cases "k = i") auto
  qed
qed

lemma sys_inv_new:
  assumes inv: "sys_inv s nss" and wf': "dll h' l' ns'" and st: "step_ok (heap s) [] h' ns'"
  shows "sys_inv \<lparr>heap = h', lists = lists s @ [l']\<rparr> (nss(length (lists s) := ns'))"
proof -
  let ?h = "heap s"
  let ?n = "length (lists s)"
  have fr: "\<forall>b. b \<notin> fst ` set [] \<and> b < length ?h \<longrightarrow> lookup h' b = lookup ?h b"
    and sub: "fst ` set ns' \<subseteq> fst ` set [] \<union> {length ?h ..< length h'}"
    and ok': "heap_ok h'"
    using st by (simp_all add: step_ok_def heap_ok_def)
  have a: "dll h' (lists s ! j) (nss j)" if "j < ?n" for j
    using other_kept[OF sys_inv_dll[OF inv that] _ fr] by simp
  have b: "fst ` set ns' \<inter> fst ` set (nss j) = {}" if "j < ?n" for j
    using grown_disjoint[OF sys_inv_dll[OF inv that] _ sub] by simp
  have c: "fst ` set (nss j) \<inter> fst ` set (nss k) = {}" if "j < ?n" "k < ?n" "j \<noteq> k" for j k
    using sys_inv_disjoint[OF inv that] .
  show ?thesis
    unfolding sys_inv_def
  proof (intro conjI allI impI)
    show "heap_ok (heap \<lparr>heap = h', lists = lists s @ [l']\<rparr>)" using ok' by simp
  next
    fix j assume "j < length (lists \<lparr>heap = h', lists = lists s @ [l']\<rparr>)"
    then show "dll (heap \<lparr>heap = h', lists = lists s @ [l']\<rparr>)
                 (lists \<lparr>heap = h', lists = lists s @ [l']\<rparr> ! j) ((nss(?n := ns')) j)"
      using a[of j] wf' by (cases "j = ?n") (simp_all add: nth_append)
  next
    fix j k assume "j < length (lists \<lparr>heap = h', lists = lists s @ [l']\<rparr>)"
      "k < length (lists \<lparr>heap = h', lists = lists s @ [l']\<rparr>)" "j \<noteq> k"
    then show "fst ` set ((nss(?n := ns')) j) \<inter> fst ` set ((nss(?n := ns')) k) = {}"
      using b[of j] b[of k] c[of j k] by (cases "j = ?n"; cases "k = ?n") auto
  qed
qed

lemma sys_inv_put2:
  assumes inv: "sys_inv s nss" and i: "i < length (lists s)" and j: "j < length (lists s)"
    and ij: "i \<noteq> j"
    and wf': "dll h' l' ns'" and wfr': "dll h' (lists s ! j) rs'"
    and same: "fst ` set rs' = fst ` set (nss j)"
    and len: "length (heap s) \<le> length h'" "length h' \<le> max_nodes"
    and sub: "fst ` set ns' \<subseteq> fst ` set (nss i) \<union> {length (heap s) ..< length h'}"
    and fr: "\<forall>b. b \<notin> fst ` set (nss i) \<union> fst ` set (nss j) \<and> b < length (heap s) \<longrightarrow>
                 lookup h' b = lookup (heap s) b"
  shows "sys_inv \<lparr>heap = h', lists = (lists s)[i := l']\<rparr> (nss(i := ns', j := rs'))"
proof -
  let ?h = "heap s"
  let ?s' = "\<lparr>heap = h', lists = (lists s)[i := l']\<rparr>"
  let ?nss' = "nss(i := ns', j := rs')"
  have a: "dll h' (lists s ! k) (nss k)" if k: "k < length (lists s)" "k \<noteq> i" "k \<noteq> j" for k
  proof -
    have "\<forall>a \<in> fst ` set (nss k). lookup h' a = lookup ?h a"
    proof
      fix a assume a: "a \<in> fst ` set (nss k)"
      have "a \<notin> fst ` set (nss i)" using sys_inv_disjoint[OF inv i k(1)] k(2) a by auto
      moreover have "a \<notin> fst ` set (nss j)" using sys_inv_disjoint[OF inv j k(1)] k(3) a by auto
      moreover have "a < length ?h" using dll_live[OF sys_inv_dll[OF inv k(1)]] a by blast
      ultimately show "lookup h' a = lookup ?h a" using fr by simp
    qed
    from dll_frame[OF sys_inv_dll[OF inv k(1)] this] show ?thesis .
  qed
  have b: "fst ` set ns' \<inter> fst ` set (nss k) = {}" if "k < length (lists s)" "k \<noteq> i" for k
    using grown_disjoint[OF sys_inv_dll[OF inv that(1)] sys_inv_disjoint[OF inv i that(1)] sub] that(2)
    by simp
  have c: "fst ` set (nss k) \<inter> fst ` set (nss m) = {}"
    if "k < length (lists s)" "m < length (lists s)" "k \<noteq> m" for k m
    using sys_inv_disjoint[OF inv that] .
  have d: "fst ` set ((?nss') k) \<inter> fst ` set ((?nss') m) = {}"
    if km: "k < length (lists s)" "m < length (lists s)" "k \<noteq> m" for k m
  proof -
    have e: "fst ` set (?nss' k) = (if k = i then fst ` set ns' else fst ` set (nss k))" for k
      using same ij by auto
    show ?thesis unfolding e using b[of k] b[of m] c[of k m] km by auto
  qed
  show ?thesis
    unfolding sys_inv_def
  proof (intro conjI allI impI)
    show "heap_ok (heap ?s')" using len by (simp add: heap_ok_def)
  next
    fix k assume "k < length (lists ?s')"
    then show "dll (heap ?s') (lists ?s' ! k) (?nss' k)"
      using a[of k] wf' wfr' i ij by (cases "k = i"; cases "k = j") simp_all
  next
    fix k m assume "k < length (lists ?s')" "m < length (lists ?s')" "k \<noteq> m"
    then show "fst ` set (?nss' k) \<inter> fst ` set (?nss' m) = {}"
      using d[of k m] by simp
  qed
qed

lemma sys_inv_moved:
  assumes inv: "sys_inv s nss" and j: "j < length (lists s)"
    and lr: "list_move (lists s ! j) = (l, r)"
  shows "sys_inv (s\<lparr>lists := (lists s)[j := r] @ [l]\<rparr>)
           (nss(j := [], length (lists s) := nss j))"
proof -
  let ?n = "length (lists s)"
  let ?nss' = "nss(j := [], ?n := nss j)"
  have l: "l = lists s ! j" and r: "dll (heap s) r []"
    using lr by (auto simp: list_move_def dll_def last_ptr_def)
  have c: "fst ` set (nss k) \<inter> fst ` set (nss m) = {}" if "k < ?n" "m < ?n" "k \<noteq> m" for k m
    using sys_inv_disjoint[OF inv that] .
  show ?thesis
    unfolding sys_inv_def
  proof (intro conjI allI impI)
    show "heap_ok (heap (s\<lparr>lists := (lists s)[j := r] @ [l]\<rparr>))" using sys_inv_ok[OF inv] by simp
  next
    fix k assume "k < length (lists (s\<lparr>lists := (lists s)[j := r] @ [l]\<rparr>))"
    then show "dll (heap (s\<lparr>lists := (lists s)[j := r] @ [l]\<rparr>))
                 (lists (s\<lparr>lists := (lists s)[j := r] @ [l]\<rparr>) ! k) (?nss' k)"
      using sys_inv_dll[OF inv, of k] sys_inv_dll[OF inv j] l r j
      by (cases "k = ?n"; cases "k = j") (simp_all add: nth_append)
  next
    fix k m assume "k < length (lists (s\<lparr>lists := (lists s)[j := r] @ [l]\<rparr>))"
      "m < length (lists (s\<lparr>lists := (lists s)[j := r] @ [l]\<rparr>))" "k \<noteq> m"
    then show "fst ` set (?nss' k) \<inter> fst ` set (?nss' m) = {}"
      using c[of k m] c[of j m] c[of k j] j
      by (cases "k = ?n"; cases "m = ?n"; cases "k = j"; cases "m = j") auto
  qed
qed

lemma sys_inv_swapped:
  assumes inv: "sys_inv s nss" and i: "i < length (lists s)" and j: "j < length (lists s)"
    and ab: "swap_l (lists s ! i) (lists s ! j) = (a, b)"
  shows "sys_inv (s\<lparr>lists := (lists s)[i := a, j := b]\<rparr>) (nss(i := nss j, j := nss i))"
proof -
  let ?n = "length (lists s)"
  let ?nss' = "nss(i := nss j, j := nss i)"
  let ?s' = "s\<lparr>lists := (lists s)[i := a, j := b]\<rparr>"
  have a: "dll (heap s) a (nss j)" and b: "dll (heap s) b (nss i)"
    using ab sys_inv_dll[OF inv i] sys_inv_dll[OF inv j] by (auto simp: swap_l_def dll_def)
  have c: "fst ` set (nss k) \<inter> fst ` set (nss m) = {}" if "k < ?n" "m < ?n" "k \<noteq> m" for k m
    using sys_inv_disjoint[OF inv that] .
  show ?thesis
    unfolding sys_inv_def
  proof (intro conjI allI impI)
    show "heap_ok (heap ?s')" using sys_inv_ok[OF inv] by simp
  next
    fix k assume "k < length (lists ?s')"
    then show "dll (heap ?s') (lists ?s' ! k) (?nss' k)"
      using sys_inv_dll[OF inv, of k] a b i j
      by (cases "k = i"; cases "k = j") simp_all
  next
    fix k m assume "k < length (lists ?s')" "m < length (lists ?s')" "k \<noteq> m"
    then show "fst ` set (?nss' k) \<inter> fst ` set (?nss' m) = {}"
      using c[of k m] c[of j m] c[of k j] c[of i m] c[of k i] c[of i j] c[of j i] i j
      by (cases "k = i"; cases "m = i"; cases "k = j"; cases "m = j") auto
  qed
qed

lemma push_all_default_inv:
  assumes ok: "heap_ok h" and run: "push_all h list_default vs = Inr (h', l')"
  shows "\<exists>ns'. dll h' l' ns' \<and> step_ok h [] h' ns'"
proof -
  from push_all_room[OF ok run] have room: "length h + length vs \<le> max_nodes" .
  from push_all_spec[OF dll_default room] run
  have r: "dll h' l' ([] @ zip [length h ..< length h + length vs] vs)"
    "length h' = length h + length vs"
    "\<forall>b. b \<notin> fst ` set [] \<and> b < length h \<longrightarrow> lookup h' b = lookup h b"
    by auto
  have "fst ` set (zip [length h ..< length h + length vs] vs) \<subseteq> {length h ..< length h'}"
    using r(2) by (auto dest: set_zip_leftD)
  then have "step_ok h [] h' (zip [length h ..< length h + length vs] vs)"
    using r(2,3) room by (simp add: step_ok_def)
  then show ?thesis using r(1) by auto
qed

lemma list_fill_inv:
  assumes ok: "heap_ok h" and run: "list_fill h num t = Inr (h', l')"
  shows "\<exists>ns'. dll h' l' ns' \<and> step_ok h [] h' ns'"
proof -
  from run have "push_all h list_default (replicate (unat num) t) = Inr (h', l')"
    by (auto simp: list_fill_def split: if_splits sum.splits)
  from push_all_default_inv[OF ok this] show ?thesis .
qed

lemma list_copy_inv:
  assumes ok: "heap_ok h" and wfr: "dll h rhs rs" and run: "list_copy h rhs = Some (Inr (h', l'))"
  shows "\<exists>ns'. dll h' l' ns' \<and> dll h' rhs rs \<and> step_ok h [] h' ns'"
proof -
  have run': "assign_copy h list_default rhs = Some (Inr (h', l'))"
    using run by (simp add: list_copy_def)
  define ls :: "(addr \<times> 'a) list" where "ls = []"
  have wfl: "dll h list_default ls" unfolding ls_def by (rule dll_default)
  have dis: "fst ` set ls \<inter> fst ` set rs = {}" by (simp add: ls_def)
  from assign_copy_room[OF wfl wfr dis ok run']
  have room: "length h + (length rs - length ls) \<le> max_nodes" .
  from assign_copy_spec[OF wfl wfr dis ok room] run' obtain ls' where
    r: "dll h' l' ls'" "dll h' rhs rs"
    "map fst ls' = map fst (take (length rs) ls) @ [length h ..< length h + (length rs - length ls)]"
    "length h' = length h + (length rs - length ls)"
    "\<forall>b. b \<notin> fst ` set ls \<and> b < length h \<longrightarrow> lookup h' b = lookup h b"
    by auto
  have "set (map fst ls') \<subseteq> {length h ..< length h'}"
    unfolding r(3) using r(4) by (auto simp: ls_def)
  then have "fst ` set ls' \<subseteq> {length h ..< length h'}" by simp
  then have "step_ok h [] h' ls'" using r(4,5) room by (simp add: step_ok_def ls_def)
  then show ?thesis using r(1,2) by blast
qed

lemma assign_copy_inv:
  assumes wfl: "dll h lhs ls" and wfr: "dll h rhs rs"
    and dis: "fst ` set ls \<inter> fst ` set rs = {}" and ok: "heap_ok h"
    and run: "assign_copy h lhs rhs = Some (Inr (h', l'))"
  shows "\<exists>ns'. dll h' l' ns' \<and> step_ok h ls h' ns'"
proof -
  from assign_copy_room[OF wfl wfr dis ok run]
  have room: "length h + (length rs - length ls) \<le> max_nodes" .
  from assign_copy_spec[OF wfl wfr dis ok room] run obtain ls' where
    r: "dll h' l' ls'"
    "map fst ls' = map fst (take (length rs) ls) @ [length h ..< length h + (length rs - length ls)]"
    "length h' = length h + (length rs - length ls)"
    "\<forall>b. b \<notin> fst ` set ls \<and> b < length h \<longrightarrow> lookup h' b = lookup h b"
    by auto
  have "set (map fst ls') \<subseteq> fst ` set ls \<union> {length h ..< length h'}"
    unfolding r(2) using r(3) by (auto dest: in_set_takeD)
  then have "fst ` set ls' \<subseteq> fst ` set ls \<union> {length h ..< length h'}" by simp
  then have "step_ok h ls h' ls'" using r(3,4) room by (simp add: step_ok_def)
  then show ?thesis using r(1) by blast
qed

lemma assign_move_inv:
  assumes wfl: "dll h lhs ls" and wfr: "dll h rhs rs"
    and dis: "fst ` set ls \<inter> fst ` set rs = {}" and ok: "heap_ok h"
    and run: "assign_move moved h lhs rhs = Some (Inr (h', l'))"
  shows "\<exists>ns' rs'. dll h' l' ns' \<and> dll h' rhs rs' \<and> fst ` set rs' = fst ` set rs \<and>
           length h \<le> length h' \<and> length h' \<le> max_nodes \<and>
           fst ` set ns' \<subseteq> fst ` set ls \<union> {length h ..< length h'} \<and>
           (\<forall>b. b \<notin> fst ` set ls \<union> fst ` set rs \<and> b < length h \<longrightarrow> lookup h' b = lookup h b)"
proof -
  from assign_move_room[OF wfl wfr dis ok run]
  have room: "length h + (length rs - length ls) \<le> max_nodes" .
  let ?rs' = "overwrite rs (map2 moved (map snd ls) (map snd rs))"
  from assign_move_spec[OF wfl wfr dis ok room, of moved] run obtain ls' where
    r: "dll h' l' ls'" "dll h' rhs ?rs'"
    "map fst ls' = map fst (take (length rs) ls) @ [length h ..< length h + (length rs - length ls)]"
    "length h' = length h + (length rs - length ls)"
    "\<forall>b. b \<notin> fst ` set ls \<union> fst ` set rs \<and> b < length h \<longrightarrow> lookup h' b = lookup h b"
    by auto
  have "set (map fst ls') \<subseteq> fst ` set ls \<union> {length h ..< length h'}"
    unfolding r(3) using r(4) by (auto dest: in_set_takeD)
  then have sub: "fst ` set ls' \<subseteq> fst ` set ls \<union> {length h ..< length h'}" by simp
  have same: "fst ` set ?rs' = fst ` set rs" by (rule set_fst_overwrite)
  have len: "length h \<le> length h'" "length h' \<le> max_nodes" using r(4) room by simp_all
  show ?thesis
    by (rule exI[of _ ls'], rule exI[of _ ?rs'], intro conjI)
       (rule r(1) r(2) same len sub r(5))+
qed

lemma map_option_Inr:
  "map_option f x = Some (Inr s') \<Longrightarrow> \<exists>r. x = Some r \<and> f r = Inr s'"
  by (cases x) auto

lemma new_list_Inr:
  "new_list s r = Inr s' \<Longrightarrow>
     \<exists>h' l'. r = Inr (h', l') \<and> s' = \<lparr>heap = h', lists = lists s @ [l']\<rparr>"
  by (auto simp: new_list_def split: sum.splits)

lemma put_list_Inr:
  "put_list s i r = Inr s' \<Longrightarrow>
     \<exists>h' l'. r = Inr (h', l') \<and> s' = \<lparr>heap = h', lists = (lists s)[i := l']\<rparr>"
  by (auto simp: put_list_def split: sum.splits)

lemma exec_inv:
  assumes inv: "sys_inv s nss" and run: "exec moved s c = Some (Inr s')"
  shows "\<exists>nss'. sys_inv s' nss'"
proof (cases c)
  case Construct_default
  have "step_ok (heap s) [] (heap s) []"
    using sys_inv_ok[OF inv] by (simp add: step_ok_def heap_ok_def)
  from sys_inv_new[OF inv dll_default this] show ?thesis
    using run Construct_default by (auto simp: new_list_def)
next
  case (Construct_fill num t)
  from run Construct_fill obtain h' l' where r: "list_fill (heap s) num t = Inr (h', l')"
    and s': "s' = \<lparr>heap = h', lists = lists s @ [l']\<rparr>"
    by (auto simp: new_list_def split: sum.splits)
  from list_fill_inv[OF sys_inv_ok[OF inv] r] obtain ns' where
    "dll h' l' ns'" "step_ok (heap s) [] h' ns'" by blast
  from sys_inv_new[OF inv this] show ?thesis using s' by blast
next
  case (Construct_il il)
  from run Construct_il obtain h' l' where r: "push_all (heap s) list_default il = Inr (h', l')"
    and s': "s' = \<lparr>heap = h', lists = lists s @ [l']\<rparr>"
    by (auto simp: new_list_def list_il_def split: sum.splits)
  from push_all_default_inv[OF sys_inv_ok[OF inv] r] obtain ns' where
    "dll h' l' ns'" "step_ok (heap s) [] h' ns'" by blast
  from sys_inv_new[OF inv this] show ?thesis using s' by blast
next
  case (Construct_range elems)
  from run Construct_range obtain h' l' where r: "push_all (heap s) list_default elems = Inr (h', l')"
    and s': "s' = \<lparr>heap = h', lists = lists s @ [l']\<rparr>"
    by (auto simp: new_list_def list_range_def split: sum.splits)
  from push_all_default_inv[OF sys_inv_ok[OF inv] r] obtain ns' where
    "dll h' l' ns'" "step_ok (heap s) [] h' ns'" by blast
  from sys_inv_new[OF inv this] show ?thesis using s' by blast
next
  case (Construct_copy j)
  from run Construct_copy have j: "j < length (lists s)" by (auto split: if_splits)
  from run Construct_copy j
  have "map_option (new_list s) (list_copy (heap s) (lists s ! j)) = Some (Inr s')" by simp
  from map_option_Inr[OF this] obtain r0 where
    "list_copy (heap s) (lists s ! j) = Some r0" "new_list s r0 = Inr s'" by blast
  then obtain h' l' where
    r: "list_copy (heap s) (lists s ! j) = Some (Inr (h', l'))"
    and s': "s' = \<lparr>heap = h', lists = lists s @ [l']\<rparr>"
    using new_list_Inr by blast
  from list_copy_inv[OF sys_inv_ok[OF inv] sys_inv_dll[OF inv j] r] obtain ns' where
    "dll h' l' ns'" "step_ok (heap s) [] h' ns'" by blast
  from sys_inv_new[OF inv this] show ?thesis using s' by blast
next
  case (Construct_move j)
  from run Construct_move have j: "j < length (lists s)" by (auto split: if_splits)
  obtain l r where lr: "list_move (lists s ! j) = (l, r)" by (cases "list_move (lists s ! j)")
  from sys_inv_moved[OF inv j lr] show ?thesis using run Construct_move j lr by auto
next
  case (Mutate i m)
  from run Mutate have i: "i < length (lists s)" by (auto split: if_splits)
  from run Mutate i obtain h' l' where r: "mutate (heap s) (lists s ! i) m = Inr (h', l')"
    and s': "s' = \<lparr>heap = h', lists = (lists s)[i := l']\<rparr>"
    by (auto simp: put_list_def split: sum.splits)
  from mutate_spec[OF sys_inv_dll[OF inv i] sys_inv_ok[OF inv] r] obtain ns' where
    "dll h' l' ns'" "step_ok (heap s) (nss i) h' ns'" by blast
  from sys_inv_put[OF inv i this] show ?thesis using s' by blast
next
  case (Copy_assign i j)
  from run Copy_assign have i: "i < length (lists s)" and j: "j < length (lists s)"
    by (auto split: if_splits)
  from run Copy_assign i j
  have "map_option (put_list s i) (assign_copy (heap s) (lists s ! i) (lists s ! j))
          = Some (Inr s')" by simp
  from map_option_Inr[OF this] obtain r0 where
    "assign_copy (heap s) (lists s ! i) (lists s ! j) = Some r0" "put_list s i r0 = Inr s'"
    by blast
  then obtain h' l' where
    r: "assign_copy (heap s) (lists s ! i) (lists s ! j) = Some (Inr (h', l'))"
    and s': "s' = \<lparr>heap = h', lists = (lists s)[i := l']\<rparr>"
    using put_list_Inr by blast
  show ?thesis
  proof (cases "i = j")
    case True
    from assign_copy_self[OF sys_inv_dll[OF inv i] sys_inv_ok[OF inv]] r True
    have "h' = heap s" "l' = lists s ! i" by simp_all
    then have "s' = s" using s' by simp
    then show ?thesis using inv by blast
  next
    case False
    from assign_copy_inv[OF sys_inv_dll[OF inv i] sys_inv_dll[OF inv j]
        sys_inv_disjoint[OF inv i j False] sys_inv_ok[OF inv] r]
    obtain ns' where "dll h' l' ns'" "step_ok (heap s) (nss i) h' ns'" by blast
    from sys_inv_put[OF inv i this] show ?thesis using s' by blast
  qed
next
  case (Move_assign i j)
  from run Move_assign have i: "i < length (lists s)" and j: "j < length (lists s)"
    by (auto split: if_splits)
  from run Move_assign i j
  have "map_option (put_list s i) (assign_move moved (heap s) (lists s ! i) (lists s ! j))
          = Some (Inr s')" by simp
  from map_option_Inr[OF this] obtain r0 where
    "assign_move moved (heap s) (lists s ! i) (lists s ! j) = Some r0"
    "put_list s i r0 = Inr s'"
    by blast
  then obtain h' l' where
    r: "assign_move moved (heap s) (lists s ! i) (lists s ! j) = Some (Inr (h', l'))"
    and s': "s' = \<lparr>heap = h', lists = (lists s)[i := l']\<rparr>"
    using put_list_Inr by blast
  show ?thesis
  proof (cases "i = j")
    case True
    let ?ns' = "map (\<lambda>(a, v). (a, moved v v)) (nss i)"
    from assign_move_self[OF sys_inv_dll[OF inv i] sys_inv_ok[OF inv], of moved] r True
    have q: "l' = lists s ! i" "dll h' (lists s ! i) ?ns'" "length h' = length (heap s)"
      "\<forall>b. b \<notin> fst ` set (nss i) \<longrightarrow> lookup h' b = lookup (heap s) b"
      by auto
    have "fst ` set ?ns' \<subseteq> fst ` set (nss i)" by force
    from step_ok_same[OF sys_inv_ok[OF inv] q(3) this q(4)]
    have "step_ok (heap s) (nss i) h' ?ns'" .
    from sys_inv_put[OF inv i _ this, of l'] q(1,2) show ?thesis using s' by blast
  next
    case False
    from assign_move_inv[OF sys_inv_dll[OF inv i] sys_inv_dll[OF inv j]
        sys_inv_disjoint[OF inv i j False] sys_inv_ok[OF inv] r]
    obtain ns' rs' where q: "dll h' l' ns'" "dll h' (lists s ! j) rs'"
      "fst ` set rs' = fst ` set (nss j)"
      "length (heap s) \<le> length h'" "length h' \<le> max_nodes"
      "fst ` set ns' \<subseteq> fst ` set (nss i) \<union> {length (heap s) ..< length h'}"
      "\<forall>b. b \<notin> fst ` set (nss i) \<union> fst ` set (nss j) \<and> b < length (heap s) \<longrightarrow>
           lookup h' b = lookup (heap s) b"
      by blast
    from sys_inv_put2[OF inv i j False q] show ?thesis using s' by blast
  qed
next
  case (Swap i j)
  from run Swap have i: "i < length (lists s)" and j: "j < length (lists s)"
    by (auto split: if_splits)
  obtain a b where ab: "swap_l (lists s ! i) (lists s ! j) = (a, b)"
    by (cases "swap_l (lists s ! i) (lists s ! j)")
  from sys_inv_swapped[OF inv i j ab] show ?thesis using run Swap i j ab by auto
qed

lemma run_inv:
  "sys_inv s nss \<Longrightarrow> run moved s cs = Some (Inr s') \<Longrightarrow> \<exists>nss'. sys_inv s' nss'"
proof (induction cs arbitrary: s nss)
  case Nil
  then show ?case by auto
next
  case (Cons c cs)
  from Cons.prems(2) obtain s1 where e: "exec moved s c = Some (Inr s1)"
    and r: "run moved s1 cs = Some (Inr s')"
    by (auto split: option.splits sum.splits)
  from exec_inv[OF Cons.prems(1) e] obtain nss1 where "sys_inv s1 nss1" by blast
  from Cons.IH[OF this r] show ?case .
qed

lemma assign_copy_returns:
  assumes wfl: "dll h lhs ls" and wfr: "dll h rhs rs"
    and dis: "fst ` set ls \<inter> fst ` set rs = {}"
  shows "\<exists>r. assign_copy h lhs rhs = Some r"
proof -
  have wfl0: "dll h lhs ([] @ ls)" and wfr0: "dll h rhs ([] @ rs)"
    and dis0: "fst ` set ([] @ ls) \<inter> fst ` set ([] @ rs) = {}"
    using wfl wfr dis by simp_all
  from assign_copy_loop_spec[OF wfl0 wfr0 dis0] obtain h1 where
    s: "assign_copy_loop h lhs rhs (Iterator (first_ptr rs None)) (Iterator (first_ptr ls None))
          = Some (Inr (h1, Iterator (first_ptr (drop (length ls) rs) None),
                           Iterator (first_ptr (drop (length rs) ls) None)))"
    by blast
  have beg: "begin_l rhs = Iterator (first_ptr rs None)" "begin_l lhs = Iterator (first_ptr ls None)"
    using dll_head[OF wfr] dll_head[OF wfl] by (simp_all add: begin_l_def)
  show ?thesis using s beg by (simp add: assign_copy_tail)
qed

lemma assign_move_returns:
  assumes wfl: "dll h lhs ls" and wfr: "dll h rhs rs"
    and dis: "fst ` set ls \<inter> fst ` set rs = {}"
  shows "\<exists>r. assign_move moved h lhs rhs = Some r"
proof -
  have wfl0: "dll h lhs ([] @ ls)" and wfr0: "dll h rhs ([] @ rs)"
    and dis0: "fst ` set ([] @ ls) \<inter> fst ` set ([] @ rs) = {}"
    using wfl wfr dis by simp_all
  from assign_move_loop_spec[OF wfl0 wfr0 dis0, of moved] obtain h1 where
    s: "assign_move_loop moved h lhs rhs (Iterator (first_ptr rs None))
                                          (Iterator (first_ptr ls None))
          = Some (Inr (h1, Iterator (first_ptr (drop (length ls) rs) None),
                           Iterator (first_ptr (drop (length rs) ls) None)))"
    by blast
  have beg: "begin_l rhs = Iterator (first_ptr rs None)" "begin_l lhs = Iterator (first_ptr ls None)"
    using dll_head[OF wfr] dll_head[OF wfl] by (simp_all add: begin_l_def)
  show ?thesis using s beg by (simp add: assign_move_tail)
qed

lemma exec_returns:
  assumes inv: "sys_inv s nss"
  shows "\<exists>r. exec moved s c = Some r"
proof (cases c)
  case (Construct_copy j)
  show ?thesis
  proof (cases "j < length (lists s)")
    case True
    have wfl: "dll (heap s) list_default ([] :: (addr \<times> 'a) list)" by (rule dll_default)
    have "fst ` set ([] :: (addr \<times> 'a) list) \<inter> fst ` set (nss j) = {}" by simp
    from assign_copy_returns[OF wfl sys_inv_dll[OF inv True] this]
    show ?thesis using Construct_copy True by (auto simp: list_copy_def)
  next
    case False
    then show ?thesis using Construct_copy by simp
  qed
next
  case (Construct_move j)
  then show ?thesis by (simp split: prod.splits)
next
  case (Copy_assign i j)
  show ?thesis
  proof (cases "i < length (lists s) \<and> j < length (lists s)")
    case True
    then have i: "i < length (lists s)" and j: "j < length (lists s)" by simp_all
    have "\<exists>r. assign_copy (heap s) (lists s ! i) (lists s ! j) = Some r"
    proof (cases "i = j")
      case True
      then show ?thesis
        using assign_copy_self[OF sys_inv_dll[OF inv i] sys_inv_ok[OF inv]] by simp
    next
      case False
      from assign_copy_returns[OF sys_inv_dll[OF inv i] sys_inv_dll[OF inv j]
          sys_inv_disjoint[OF inv i j False]]
      show ?thesis .
    qed
    then show ?thesis using Copy_assign i j by auto
  next
    case False
    then show ?thesis using Copy_assign by auto
  qed
next
  case (Move_assign i j)
  show ?thesis
  proof (cases "i < length (lists s) \<and> j < length (lists s)")
    case True
    then have i: "i < length (lists s)" and j: "j < length (lists s)" by simp_all
    have "\<exists>r. assign_move moved (heap s) (lists s ! i) (lists s ! j) = Some r"
    proof (cases "i = j")
      case True
      then show ?thesis
        using assign_move_self[OF sys_inv_dll[OF inv i] sys_inv_ok[OF inv], of moved] by auto
    next
      case False
      from assign_move_returns[OF sys_inv_dll[OF inv i] sys_inv_dll[OF inv j]
          sys_inv_disjoint[OF inv i j False]]
      show ?thesis .
    qed
    then show ?thesis using Move_assign i j by auto
  next
    case False
    then show ?thesis using Move_assign by auto
  qed
next
  case (Swap i j)
  then show ?thesis by (simp split: prod.splits)
qed simp_all

lemma run_returns:
  "sys_inv s nss \<Longrightarrow> \<exists>r. run moved s cs = Some r"
proof (induction cs arbitrary: s nss)
  case Nil
  then show ?case by simp
next
  case (Cons c cs)
  from exec_returns[OF Cons.prems, of moved c] obtain r where r: "exec moved s c = Some r"
    by blast
  show ?case
  proof (cases r)
    case (Inl e)
    then show ?thesis using r by simp
  next
    case (Inr s1)
    from exec_inv[OF Cons.prems] r Inr obtain nss1 where "sys_inv s1 nss1" by blast
    from Cons.IH[OF this] show ?thesis using r Inr by simp
  qed
qed

subsection \<open>The invariants as the interface words them\<close>

text \<open>
  The invariants in the words of the interface. \<open>reach h k p\<close> follows \<^verbatim>\<open>pNext\<close> from \<open>p\<close>
  and lists the nodes it meets before the null pointer; it gives up after \<open>k\<close> nodes, and on
  a pointer to a deleted node. A chain without a cycle has at most as many nodes as the heap
  has cells, so \<open>nodes_of\<close> finds it whenever there is one.
\<close>

fun reach :: "'a heap \<Rightarrow> nat \<Rightarrow> addr option \<Rightarrow> addr list option" where
  "reach h k None = Some []"
| "reach h 0 (Some a) = None"
| "reach h (Suc k) (Some a) =
     (case lookup h a of None \<Rightarrow> None
      | Some n \<Rightarrow> map_option ((#) a) (reach h k (pNext n)))"

definition nodes_of :: "'a heap \<Rightarrow> custom_list \<Rightarrow> addr list option" where
  "nodes_of h l = reach h (length h) (pHead l)"

definition next_of :: "'a heap \<Rightarrow> addr \<Rightarrow> addr option" where
  "next_of h a = (case lookup h a of None \<Rightarrow> None | Some n \<Rightarrow> pNext n)"

definition prev_of :: "'a heap \<Rightarrow> addr \<Rightarrow> addr option" where
  "prev_of h a = (case lookup h a of None \<Rightarrow> None | Some n \<Rightarrow> pPrev n)"

definition list_invariant :: "'a heap \<Rightarrow> custom_list \<Rightarrow> bool" where
  "list_invariant h l =
     (case nodes_of h l of
        None \<Rightarrow> False
      | Some as \<Rightarrow>
          unat (size_l l) = length as \<and>
          pTail l = (if as = [] then None else Some (last as)) \<and>
          empty_l l = (size_l l = 0) \<and>
          (numElements l = 0) = (pHead l = None) \<and>
          (pHead l = None) = (pTail l = None) \<and>
          list_all (\<lambda>a. list_all (\<lambda>b. (next_of h a = Some b) = (prev_of h b = Some a)) as) as)"

lemma reach_dlseg:
  "dlseg h pr p ns None \<Longrightarrow> length ns \<le> k \<Longrightarrow> reach h k p = Some (map fst ns)"
proof (induction ns arbitrary: pr p k)
  case Nil
  then show ?case by simp
next
  case (Cons x ns)
  obtain a v where x: "x = (a, v)" by (cases x)
  from Cons.prems(1) obtain n where n: "p = Some a" "lookup h a = Some n"
    and seg: "dlseg h (Some a) (pNext n) ns None"
    by (auto simp: x split: option.splits)
  from Cons.prems(2) obtain k' where k: "k = Suc k'" "length ns \<le> k'" by (cases k) auto
  from Cons.IH[OF seg k(2)] show ?case using n k(1) x by simp
qed

lemma dll_nth:
  assumes wf: "dll h l ns" and i: "i < length ns"
  shows "next_of h (fst (ns ! i)) = (if Suc i < length ns then Some (fst (ns ! Suc i)) else None)"
    and "prev_of h (fst (ns ! i)) = (if i = 0 then None else Some (fst (ns ! (i - 1))))"
proof -
  obtain a v where x: "ns ! i = (a, v)" by (cases "ns ! i")
  have split: "ns = take i ns @ (a, v) # drop (Suc i) ns"
    using id_take_nth_drop[OF i] x by simp
  have "dll h l (take i ns @ (a, v) # drop (Suc i) ns)" using wf split by simp
  from dll_lookup[OF this] obtain n where n: "lookup h a = Some n"
    "pPrev n = last_ptr None (take i ns)" "pNext n = first_ptr (drop (Suc i) ns) None"
    by blast
  have f: "first_ptr (drop (Suc i) ns) None
             = (if Suc i < length ns then Some (fst (ns ! Suc i)) else None)"
  proof (cases "Suc i < length ns")
    case True
    then have "drop (Suc i) ns = ns ! Suc i # drop (Suc (Suc i)) ns"
      by (simp add: Cons_nth_drop_Suc)
    then show ?thesis using True by (simp add: first_ptr_def split: prod.splits)
  next
    case False
    then show ?thesis by (simp add: first_ptr_def)
  qed
  have l: "last_ptr None (take i ns) = (if i = 0 then None else Some (fst (ns ! (i - 1))))"
  proof (cases i)
    case 0
    then show ?thesis by (simp add: last_ptr_def)
  next
    case (Suc k)
    then have "take i ns = take k ns @ [ns ! k]" using i by (simp add: take_Suc_conv_app_nth)
    then show ?thesis using Suc by (simp add: last_ptr_def)
  qed
  show "next_of h (fst (ns ! i)) = (if Suc i < length ns then Some (fst (ns ! Suc i)) else None)"
    using n f x by (simp add: next_of_def)
  show "prev_of h (fst (ns ! i)) = (if i = 0 then None else Some (fst (ns ! (i - 1))))"
    using n l x by (simp add: prev_of_def)
qed

lemma dll_links:
  assumes wf: "dll h l ns" and a: "a \<in> fst ` set ns" and b: "b \<in> fst ` set ns"
  shows "(next_of h a = Some b) = (prev_of h b = Some a)"
proof -
  have d: "distinct (map fst ns)" using wf by (simp add: dll_def)
  from a obtain i where i: "i < length ns" "a = fst (ns ! i)"
    by (auto simp: in_set_conv_nth)
  from b obtain j where j: "j < length ns" "b = fst (ns ! j)"
    by (auto simp: in_set_conv_nth)
  have inj: "(fst (ns ! k) = fst (ns ! m)) = (k = m)" if "k < length ns" "m < length ns" for k m
    using d that nth_eq_iff_index_eq[of "map fst ns" k m] by simp
  have "(next_of h a = Some b) = (j = Suc i)"
    using dll_nth(1)[OF wf i(1)] i j inj[of "Suc i" j] by auto
  moreover have "(prev_of h b = Some a) = (j = Suc i)"
    using dll_nth(2)[OF wf j(1)] i j inj[of "j - 1" i] by auto
  ultimately show ?thesis by simp
qed

lemma dll_list_invariant:
  assumes wf: "dll h l ns" and ok: "heap_ok h"
  shows "list_invariant h l"
proof -
  have len: "length ns \<le> length h" by (rule dll_length_le[OF wf])
  then have "length ns \<le> max_nodes" using ok by (simp add: heap_ok_def)
  then have lt: "length ns < 2 ^ 64" by (simp add: max_nodes_def)
  have seg: "dlseg h None (pHead l) ns None" and tl: "pTail l = last_ptr None ns"
    and num: "numElements l = of_nat (length ns)"
    using wf by (simp_all add: dll_def)
  have nodes: "nodes_of h l = Some (map fst ns)"
    using reach_dlseg[OF seg len] by (simp add: nodes_of_def)
  have sz: "unat (size_l l) = length ns"
    using num lt by (simp add: size_l_def unat_of_nat)
  have ptl: "pTail l = (if map fst ns = [] then None else Some (last (map fst ns)))"
    using tl by (simp add: last_ptr_def last_map)
  have e: "empty_l l = (size_l l = 0)" by (simp add: empty_l_def)
  have z: "(numElements l = 0) = (ns = [])"
    using dll_empty_iff[OF wf ok] by (simp add: empty_l_def size_l_def)
  have hd: "(pHead l = None) = (ns = [])"
    using dll_head[OF wf] by (simp add: first_ptr_None_iff)
  have tn: "(pTail l = None) = (ns = [])" using tl by (simp add: last_ptr_def)
  have links: "list_all (\<lambda>a. list_all (\<lambda>b. (next_of h a = Some b) = (prev_of h b = Some a))
                                (map fst ns)) (map fst ns)"
    unfolding list_all_iff using dll_links[OF wf] by simp
  show ?thesis
    unfolding list_invariant_def nodes
    using sz ptl e z hd tn links by simp
qed

lemma run_list_invariant:
  assumes "run moved initial_state ops = Some (Inr s)" "i < length (lists s)"
  shows "list_invariant (heap s) (lists s ! i)"
proof -
  from run_inv[OF sys_inv_initial assms(1)] obtain nss where inv: "sys_inv s nss" by blast
  from dll_list_invariant[OF sys_inv_dll[OF inv assms(2)] sys_inv_ok[OF inv]] show ?thesis .
qed

section \<open>The claims\<close>

subsection \<open>C1: move construction and move assignment\<close>

text \<open>
  Claim C1 asks that after a move construction and after a move assignment the destination
  holds the prior elements of the source in their order and the source is empty: head and
  tail null, \<^verbatim>\<open>size() == 0\<close>, \<^verbatim>\<open>empty()\<close> true. The move constructor does this: it takes
  over the three members of its source and resets them. The move assignment does not: it
  is the loop of the copy assignment with \<^verbatim>\<open>std::move\<close> on the elements it overwrites, and
  no statement of it writes \<^verbatim>\<open>rhs.pHead\<close>, \<^verbatim>\<open>rhs.pTail\<close> or \<^verbatim>\<open>rhs.numElements\<close>. The
  theorem evaluates both on the source \<open>[1, 2]\<close> (nodes \<open>1\<close> and \<open>2\<close>), with \<^verbatim>\<open>int\<close>
  elements, which a move leaves as they are. Move-assigned onto \<open>[9]\<close> (node \<open>0\<close>), the
  destination becomes \<open>[1, 2]\<close> on the nodes \<open>0\<close> and \<open>3\<close>, and the source still has
  \<^verbatim>\<open>size() == 2\<close>, is not empty, has its head and tail, and still reads \<open>[1, 2]\<close>.
  Move-constructed from, the same source is left with null head and tail and size zero.
\<close>

theorem move_assign_source_not_emptied:
  "assign_move (\<lambda>d v. v)
        [Some \<lparr>data = 9::int, pNext = None, pPrev = None\<rparr>,
         Some \<lparr>data = 1, pNext = Some 2, pPrev = None\<rparr>,
         Some \<lparr>data = 2, pNext = None, pPrev = Some 1\<rparr>]
        \<lparr>numElements = 1, pHead = Some 0, pTail = Some 0\<rparr>
        \<lparr>numElements = 2, pHead = Some 1, pTail = Some 2\<rparr>
     = Some (Inr ([Some \<lparr>data = 1, pNext = Some 3, pPrev = None\<rparr>,
                   Some \<lparr>data = 1, pNext = Some 2, pPrev = None\<rparr>,
                   Some \<lparr>data = 2, pNext = None, pPrev = Some 1\<rparr>,
                   Some \<lparr>data = 2, pNext = None, pPrev = Some 0\<rparr>],
                  \<lparr>numElements = 2, pHead = Some 0, pTail = Some 3\<rparr>)) \<and>
   forward_contents [Some \<lparr>data = 1::int, pNext = Some 3, pPrev = None\<rparr>,
                     Some \<lparr>data = 1, pNext = Some 2, pPrev = None\<rparr>,
                     Some \<lparr>data = 2, pNext = None, pPrev = Some 1\<rparr>,
                     Some \<lparr>data = 2, pNext = None, pPrev = Some 0\<rparr>]
       \<lparr>numElements = 2, pHead = Some 0, pTail = Some 3\<rparr> = Some (Inr [1, 2]) \<and>
   forward_contents [Some \<lparr>data = 1::int, pNext = Some 3, pPrev = None\<rparr>,
                     Some \<lparr>data = 1, pNext = Some 2, pPrev = None\<rparr>,
                     Some \<lparr>data = 2, pNext = None, pPrev = Some 1\<rparr>,
                     Some \<lparr>data = 2, pNext = None, pPrev = Some 0\<rparr>]
       \<lparr>numElements = 2, pHead = Some 1, pTail = Some 2\<rparr> = Some (Inr [1, 2]) \<and>
   size_l \<lparr>numElements = 2, pHead = Some 1, pTail = Some 2\<rparr> = 2 \<and>
   \<not> empty_l \<lparr>numElements = 2, pHead = Some 1, pTail = Some 2\<rparr> \<and>
   pHead \<lparr>numElements = 2, pHead = Some 1, pTail = Some 2\<rparr> = Some 1 \<and>
   pTail \<lparr>numElements = 2, pHead = Some 1, pTail = Some 2\<rparr> = Some 2 \<and>
   list_move \<lparr>numElements = 2, pHead = Some 1, pTail = Some 2\<rparr>
     = (\<lparr>numElements = 2, pHead = Some 1, pTail = Some 2\<rparr>,
        \<lparr>numElements = 0, pHead = None, pTail = None\<rparr>) \<and>
   empty_l \<lparr>numElements = 0, pHead = None, pTail = None\<rparr>"
  by code_simp

subsection \<open>C2: erase, pop\_front and pop\_back\<close>

text \<open>
  Claim C2. \<^verbatim>\<open>erase\<close> on the null position returns the end iterator and changes
  nothing. On a well-formed list \<open>xs @ (a, v) # ys\<close> and the iterator at node \<open>a\<close> it
  succeeds: the list is then \<open>xs @ ys\<close> (so \<^verbatim>\<open>pHead\<close> and \<^verbatim>\<open>pTail\<close> are its first
  and last node, both null when nothing is left), the count is one less, node \<open>a\<close> is
  released, no node outside the list is touched, and the iterator returned names the
  first node of \<open>ys\<close>, or is the end iterator when \<open>ys\<close> is empty. \<^verbatim>\<open>pop_front\<close> and
  \<^verbatim>\<open>pop_back\<close> are \<^verbatim>\<open>erase\<close> at \<^verbatim>\<open>begin()\<close> and \<^verbatim>\<open>rbegin()\<close> with the returned
  iterator dropped, and on an empty list they change nothing. The witness erases the
  only element of the list \<open>[5]\<close> and pops from the empty list.
\<close>

theorem erase_unlinks_node:
  "erase h l (Iterator None) = Inr (h, l, end_l l) \<and>
   (dll h l (xs @ (a, v) # ys) \<longrightarrow>
      (\<exists>h' l'. erase h l (Iterator (Some a)) = Inr (h', l', Iterator (first_ptr ys None)) \<and>
         dll h' l' (xs @ ys) \<and>
         pHead l' = first_ptr (xs @ ys) None \<and> pTail l' = last_ptr None (xs @ ys) \<and>
         numElements l' = numElements l - 1 \<and>
         lookup h' a = None \<and>
         (\<forall>b. b \<notin> fst ` set (xs @ (a, v) # ys) \<longrightarrow> lookup h' b = lookup h b))) \<and>
   pop_front h l =
     (case erase h l (begin_l l) of Inl e \<Rightarrow> Inl e | Inr (h', l', r) \<Rightarrow> Inr (h', l')) \<and>
   pop_back h l =
     (case erase h l (rbegin l) of Inl e \<Rightarrow> Inl e | Inr (h', l', r) \<Rightarrow> Inr (h', l')) \<and>
   (dll h l [] \<longrightarrow> pop_front h l = Inr (h, l) \<and> pop_back h l = Inr (h, l))"
proof -
  have null: "erase h l (Iterator None) = Inr (h, l, end_l l)"
    by (simp add: erase_def end_l_def)
  have node: "dll h l (xs @ (a, v) # ys) \<longrightarrow>
      (\<exists>h' l'. erase h l (Iterator (Some a)) = Inr (h', l', Iterator (first_ptr ys None)) \<and>
         dll h' l' (xs @ ys) \<and>
         pHead l' = first_ptr (xs @ ys) None \<and> pTail l' = last_ptr None (xs @ ys) \<and>
         numElements l' = numElements l - 1 \<and>
         lookup h' a = None \<and>
         (\<forall>b. b \<notin> fst ` set (xs @ (a, v) # ys) \<longrightarrow> lookup h' b = lookup h b))"
  proof
    assume wf: "dll h l (xs @ (a, v) # ys)"
    from erase_spec[OF wf] obtain h' l' where
      r: "erase h l (Iterator (Some a)) = Inr (h', l', Iterator (first_ptr ys None))"
      "dll h' l' (xs @ ys)" "numElements l' = numElements l - 1" "lookup h' a = None"
      "\<forall>b. b \<notin> fst ` set (xs @ (a, v) # ys) \<longrightarrow> lookup h' b = lookup h b"
      by blast
    show "\<exists>h' l'. erase h l (Iterator (Some a)) = Inr (h', l', Iterator (first_ptr ys None)) \<and>
         dll h' l' (xs @ ys) \<and>
         pHead l' = first_ptr (xs @ ys) None \<and> pTail l' = last_ptr None (xs @ ys) \<and>
         numElements l' = numElements l - 1 \<and>
         lookup h' a = None \<and>
         (\<forall>b. b \<notin> fst ` set (xs @ (a, v) # ys) \<longrightarrow> lookup h' b = lookup h b)"
      using r dll_head[OF r(2)] dll_tail[OF r(2)] by blast
  qed
  have pf: "pop_front h l =
     (case erase h l (begin_l l) of Inl e \<Rightarrow> Inl e | Inr (h', l', r) \<Rightarrow> Inr (h', l'))"
    by (simp add: pop_front_def begin_l_def)
  have pb: "pop_back h l =
     (case erase h l (rbegin l) of Inl e \<Rightarrow> Inl e | Inr (h', l', r) \<Rightarrow> Inr (h', l'))"
    by (simp add: pop_back_def rbegin_def)
  have emp: "dll h l [] \<longrightarrow> pop_front h l = Inr (h, l) \<and> pop_back h l = Inr (h, l)"
    by (simp add: dll_def last_ptr_def pop_front_def pop_back_def erase_def)
  show ?thesis using null node pf pb emp by blast
qed

theorem erase_unlinks_node_witness:
  "dll [Some \<lparr>data = 5::int, pNext = None, pPrev = None\<rparr>]
       \<lparr>numElements = 1, pHead = Some 0, pTail = Some 0\<rparr> ([] @ (0, 5) # []) \<and>
   (\<exists>h' l'. erase [Some \<lparr>data = 5::int, pNext = None, pPrev = None\<rparr>]
                  \<lparr>numElements = 1, pHead = Some 0, pTail = Some 0\<rparr> (Iterator (Some 0))
               = Inr (h', l', Iterator None) \<and>
            dll h' l' [] \<and> pHead l' = None \<and> pTail l' = None \<and> numElements l' = 0) \<and>
   dll ([] :: int heap) list_default [] \<and>
   pop_front ([] :: int heap) list_default = Inr ([], list_default) \<and>
   pop_back ([] :: int heap) list_default = Inr ([], list_default)"
proof -
  let ?h = "[Some \<lparr>data = 5::int, pNext = None, pPrev = None\<rparr>]"
  let ?l = "\<lparr>numElements = 1, pHead = Some 0, pTail = Some 0\<rparr>"
  have wf: "dll ?h ?l ([] @ (0, 5) # [])" by (simp add: dll_def lookup_def last_ptr_def)
  have wf0: "dll ([] :: int heap) list_default []"
    by (simp add: dll_def list_default_def last_ptr_def)
  note e1 = erase_unlinks_node[of ?h ?l "[]" 0 5 "[]", THEN conjunct2, THEN conjunct1,
      THEN mp, OF wf]
  note e2 = erase_unlinks_node[of "[] :: int heap" list_default "[]" 0 5 "[]",
      THEN conjunct2, THEN conjunct2, THEN conjunct2, THEN conjunct2, THEN mp, OF wf0]
  show ?thesis using wf wf0 e1 e2 by (auto simp: first_ptr_def last_ptr_def)
qed

subsection \<open>C3: copy assignment\<close>

text \<open>
  Claim C3. Let \<open>lhs\<close> and \<open>rhs\<close> be well-formed lists with no node in common, with
  room in the store for the nodes that have to be added. Copy assignment returns and
  succeeds. Afterwards the destination is a well-formed list whose values are those of
  the source, position by position, and whose size is that of the source; the source
  has the nodes and values it had; the two lists have no node in common. Whatever
  single mutation of the destination then succeeds (\<open>mutate\<close>: a push, a pop, an insert
  or erase at any position, a clear, an assignment of a literal, a write through an
  iterator), the source still has its nodes and values, and the same with the two lists
  exchanged.
\<close>

theorem copy_assign_independent:
  assumes ok: "heap_ok h" and wfl: "dll h lhs ls" and wfr: "dll h rhs rs"
    and dis: "fst ` set ls \<inter> fst ` set rs = {}"
    and room: "length h + (length rs - length ls) \<le> max_nodes"
  shows "\<exists>h' lhs' ls'. assign_copy h lhs rhs = Some (Inr (h', lhs')) \<and>
           dll h' lhs' ls' \<and> map snd ls' = map snd rs \<and> size_l lhs' = size_l rhs \<and>
           forward_contents h' lhs' = Some (Inr (map snd rs)) \<and>
           dll h' rhs rs \<and> heap_ok h' \<and>
           fst ` set ls' \<inter> fst ` set rs = {} \<and>
           (\<forall>m h2 l2. mutate h' lhs' m = Inr (h2, l2) \<longrightarrow> dll h2 rhs rs) \<and>
           (\<forall>m h2 r2. mutate h' rhs m = Inr (h2, r2) \<longrightarrow> dll h2 lhs' ls')"
proof -
  from assign_copy_spec[OF wfl wfr dis ok room] obtain h' lhs' ls' where
    a: "assign_copy h lhs rhs = Some (Inr (h', lhs'))" "dll h' lhs' ls'"
    "map snd ls' = map snd rs" "dll h' rhs rs"
    "map fst ls' = map fst (take (length rs) ls)
                     @ [length h ..< length h + (length rs - length ls)]"
    "length h' = length h + (length rs - length ls)"
    by blast
  have ok': "heap_ok h'" using a(6) room by (simp add: heap_ok_def)
  have len: "length ls' = length rs" using a(3) by (metis length_map)
  have sz: "size_l lhs' = size_l rhs"
    using a(2) wfr len by (simp add: dll_def size_l_def)
  have fc: "forward_contents h' lhs' = Some (Inr (map snd rs))"
    using forward_contents_dll[OF a(2)] a(3) by simp
  have lv: "\<forall>b \<in> fst ` set rs. b < length h" using wfr by (rule dll_live)
  have dis': "fst ` set ls' \<inter> fst ` set rs = {}"
  proof -
    have "set (map fst ls') \<subseteq> fst ` set ls \<union> {length h ..< length h + (length rs - length ls)}"
      unfolding a(5) by (auto dest: in_set_takeD)
    then have "fst ` set ls' \<subseteq> fst ` set ls \<union> {length h ..< length h + (length rs - length ls)}"
      by simp
    then have "\<And>b. b \<in> fst ` set ls' \<Longrightarrow> b \<in> fst ` set ls \<or> length h \<le> b"
      by auto
    moreover have "\<And>b. b \<in> fst ` set rs \<Longrightarrow> b \<notin> fst ` set ls \<and> b < length h"
      using dis lv by blast
    ultimately have "\<And>b. b \<in> fst ` set ls' \<Longrightarrow> b \<notin> fst ` set rs"
      by (metis not_less)
    then show ?thesis by blast
  qed
  have dis'': "fst ` set rs \<inter> fst ` set ls' = {}" using dis' by auto
  have m1: "\<forall>m h2 l2. mutate h' lhs' m = Inr (h2, l2) \<longrightarrow> dll h2 rhs rs"
    using mutate_frame[OF a(2) ok' a(4) dis'] by blast
  have m2: "\<forall>m h2 r2. mutate h' rhs m = Inr (h2, r2) \<longrightarrow> dll h2 lhs' ls'"
    using mutate_frame[OF a(4) ok' a(2) dis''] by blast
  show ?thesis using a(1,2,3,4) sz fc ok' dis' m1 m2
    by (intro exI[of _ h'] exI[of _ lhs'] exI[of _ ls'] conjI) assumption+
qed

theorem copy_assign_independent_witness:
  "heap_ok [Some \<lparr>data = 9::int, pNext = None, pPrev = None\<rparr>,
            Some \<lparr>data = 1, pNext = Some 2, pPrev = None\<rparr>,
            Some \<lparr>data = 2, pNext = None, pPrev = Some 1\<rparr>] \<and>
   dll [Some \<lparr>data = 9::int, pNext = None, pPrev = None\<rparr>,
        Some \<lparr>data = 1, pNext = Some 2, pPrev = None\<rparr>,
        Some \<lparr>data = 2, pNext = None, pPrev = Some 1\<rparr>]
       \<lparr>numElements = 1, pHead = Some 0, pTail = Some 0\<rparr> [(0, 9)] \<and>
   dll [Some \<lparr>data = 9::int, pNext = None, pPrev = None\<rparr>,
        Some \<lparr>data = 1, pNext = Some 2, pPrev = None\<rparr>,
        Some \<lparr>data = 2, pNext = None, pPrev = Some 1\<rparr>]
       \<lparr>numElements = 2, pHead = Some 1, pTail = Some 2\<rparr> [(1, 1), (2, 2)] \<and>
   (\<exists>h' lhs' ls'.
      assign_copy [Some \<lparr>data = 9::int, pNext = None, pPrev = None\<rparr>,
                   Some \<lparr>data = 1, pNext = Some 2, pPrev = None\<rparr>,
                   Some \<lparr>data = 2, pNext = None, pPrev = Some 1\<rparr>]
                  \<lparr>numElements = 1, pHead = Some 0, pTail = Some 0\<rparr>
                  \<lparr>numElements = 2, pHead = Some 1, pTail = Some 2\<rparr>
        = Some (Inr (h', lhs')) \<and>
      dll h' lhs' ls' \<and> map snd ls' = [1, 2] \<and> size_l lhs' = 2 \<and>
      dll h' \<lparr>numElements = 2, pHead = Some 1, pTail = Some 2\<rparr> [(1, 1), (2, 2)] \<and>
      (\<exists>h2 r2. mutate h' \<lparr>numElements = 2, pHead = Some 1, pTail = Some 2\<rparr> (Write 0 7)
                  = Inr (h2, r2) \<and>
               dll h2 r2 [(1, 7), (2, 2)] \<and> dll h2 lhs' ls'))"
proof -
  let ?h = "[Some \<lparr>data = 9::int, pNext = None, pPrev = None\<rparr>,
             Some \<lparr>data = 1, pNext = Some 2, pPrev = None\<rparr>,
             Some \<lparr>data = 2, pNext = None, pPrev = Some 1\<rparr>]"
  let ?l = "\<lparr>numElements = 1, pHead = Some 0, pTail = Some 0\<rparr>"
  let ?r = "\<lparr>numElements = 2, pHead = Some 1, pTail = Some 2\<rparr>"
  let ?ls = "[(0, 9)] :: (addr \<times> int) list"
  let ?rs = "[(1, 1), (2, 2)] :: (addr \<times> int) list"
  have ok: "heap_ok ?h" by (simp add: heap_ok_def max_nodes_def)
  have wfl: "dll ?h ?l ?ls" by (simp add: dll_def lookup_def last_ptr_def)
  have wfr: "dll ?h ?r ?rs" by (simp add: dll_def lookup_def last_ptr_def)
  have dis: "fst ` set ?ls \<inter> fst ` set ?rs = {}" by simp
  have room: "length ?h + (length ?rs - length ?ls) \<le> max_nodes" by (simp add: max_nodes_def)
  from copy_assign_independent[OF ok wfl wfr dis room] obtain h' lhs' ls' where
    a: "assign_copy ?h ?l ?r = Some (Inr (h', lhs'))" "dll h' lhs' ls'"
    "map snd ls' = map snd ?rs" "size_l lhs' = size_l ?r" "dll h' ?r ?rs"
    "\<forall>m h2 r2. mutate h' ?r m = Inr (h2, r2) \<longrightarrow> dll h2 lhs' ls'"
    by (elim exE conjE) (rule that; assumption)
  have wfr': "dll h' ?r ([] @ (1, 1) # [(2, 2)])" using a(5) by simp
  from dll_set_data[OF wfr', of 7] obtain n where
    n: "set_ref h' 1 7 = Inr (h'[1 := Some (n\<lparr>data := 7\<rparr>)])"
    "dll (h'[1 := Some (n\<lparr>data := 7\<rparr>)]) ?r ([] @ (1, 7) # [(2, 2)])"
    by blast
  let ?h2 = "h'[1 := Some (n\<lparr>data := 7\<rparr>)]"
  have mu: "mutate h' ?r (Write 0 7) = Inr (?h2, ?r)"
    using n(1) by (simp add: begin_l_def iter_deref_def)
  have "dll ?h2 lhs' ls'" using a(6) mu by blast
  then have "\<exists>h2 r2. mutate h' ?r (Write 0 7) = Inr (h2, r2) \<and>
               dll h2 r2 [(1, 7), (2, 2)] \<and> dll h2 lhs' ls'"
    using mu n(2) by (intro exI[of _ ?h2] exI[of _ ?r]) simp
  moreover have "map snd ls' = [1, 2]" using a(3) by simp
  moreover have "size_l lhs' = 2" using a(4) by (simp add: size_l_def)
  ultimately have "\<exists>h' lhs' ls'.
      assign_copy ?h ?l ?r = Some (Inr (h', lhs')) \<and>
      dll h' lhs' ls' \<and> map snd ls' = [1, 2] \<and> size_l lhs' = 2 \<and>
      dll h' ?r [(1, 1), (2, 2)] \<and>
      (\<exists>h2 r2. mutate h' ?r (Write 0 7) = Inr (h2, r2) \<and>
               dll h2 r2 [(1, 7), (2, 2)] \<and> dll h2 lhs' ls')"
    using a(1,2,5)
    by (intro exI[of _ h'], intro exI[of _ lhs'], intro exI[of _ ls'], intro conjI) assumption+
  then show ?thesis using ok wfl wfr by (intro conjI)
qed

subsection \<open>C4: insert\<close>

text \<open>
  Claim C4. Let the list be \<open>xs @ ys\<close> and let the position name the first node of
  \<open>ys\<close>, or be the end iterator when \<open>ys\<close> is empty. With room for one more node,
  \<^verbatim>\<open>insert\<close> succeeds: it allocates one new node, the list is then
  \<open>xs @ (new, v) # ys\<close>, the count is one more, the iterator returned names the new
  node, \<^verbatim>\<open>pHead\<close> is the new node exactly when \<open>xs\<close> is empty and \<^verbatim>\<open>pTail\<close> is the new
  node exactly when \<open>ys\<close> is empty, and no node outside the list is touched. At the end
  position the store and the list are those \<^verbatim>\<open>push_back\<close> produces; on an empty list
  the position does not matter. The witness inserts \<open>0\<close> at \<^verbatim>\<open>begin()\<close> of \<open>[1,2,3]\<close>.
\<close>

theorem insert_before_position:
  assumes ok: "heap_ok h" and wf: "dll h l (xs @ ys)" and room: "length h < max_nodes"
  shows "\<exists>h' l'. insert_l h l (Iterator (first_ptr ys None)) v
                    = Inr (h', l', Iterator (Some (length h))) \<and>
           lookup h (length h) = None \<and>
           dll h' l' (xs @ (length h, v) # ys) \<and>
           numElements l' = numElements l + 1 \<and>
           pHead l' = first_ptr xs (Some (length h)) \<and>
           pTail l' = last_ptr (Some (length h)) ys \<and>
           (\<forall>b. b \<notin> fst ` set (xs @ ys) \<and> b \<noteq> length h \<longrightarrow> lookup h' b = lookup h b) \<and>
           (ys = [] \<longrightarrow> push_back h l v = Inr (h', l')) \<and>
           (xs @ ys = [] \<longrightarrow> (\<forall>it. insert_l h l it v = Inr (h', l', Iterator (Some (length h)))))"
proof -
  from insert_pos_spec[OF ok wf room, of v] obtain h' l' where
    r: "insert_l h l (Iterator (first_ptr ys None)) v = Inr (h', l', Iterator (Some (length h)))"
    "dll h' l' (xs @ (length h, v) # ys)"
    "\<forall>b. b \<notin> fst ` set (xs @ ys) \<and> b \<noteq> length h \<longrightarrow> lookup h' b = lookup h b"
    "ys = [] \<longrightarrow> push_back h l v = Inr (h', l')"
    by blast
  have fresh: "lookup h (length h) = None" by (simp add: lookup_def)
  have cnt: "numElements l' = numElements l + 1" using wf r(2) by (simp add: dll_def)
  have hd: "pHead l' = first_ptr xs (Some (length h))"
    using dll_head[OF r(2)] by (simp add: first_ptr_append first_ptr_simps)
  have tl: "pTail l' = last_ptr (Some (length h)) ys"
    using dll_tail[OF r(2)] by (simp add: last_ptr_append last_ptr_simps)
  have emp: "xs @ ys = [] \<longrightarrow> (\<forall>it. insert_l h l it v = Inr (h', l', Iterator (Some (length h))))"
  proof
    assume e: "xs @ ys = []"
    then have "empty_l l" using dll_empty_iff[OF wf ok] by simp
    then have "\<forall>it. insert_l h l it v = insert_l h l (Iterator (first_ptr ys None)) v"
      by (simp add: insert_l_def)
    then show "\<forall>it. insert_l h l it v = Inr (h', l', Iterator (Some (length h)))"
      using r(1) by simp
  qed
  show ?thesis using r fresh cnt hd tl emp
    by (intro exI[of _ h'] exI[of _ l'] conjI) assumption+
qed

theorem insert_before_position_witness:
  "heap_ok [Some \<lparr>data = 1::int, pNext = Some 1, pPrev = None\<rparr>,
            Some \<lparr>data = 2, pNext = Some 2, pPrev = Some 0\<rparr>,
            Some \<lparr>data = 3, pNext = None, pPrev = Some 1\<rparr>] \<and>
   dll [Some \<lparr>data = 1::int, pNext = Some 1, pPrev = None\<rparr>,
        Some \<lparr>data = 2, pNext = Some 2, pPrev = Some 0\<rparr>,
        Some \<lparr>data = 3, pNext = None, pPrev = Some 1\<rparr>]
       \<lparr>numElements = 3, pHead = Some 0, pTail = Some 2\<rparr> ([] @ [(0, 1), (1, 2), (2, 3)]) \<and>
   (\<exists>h' l'. insert_l [Some \<lparr>data = 1::int, pNext = Some 1, pPrev = None\<rparr>,
                      Some \<lparr>data = 2, pNext = Some 2, pPrev = Some 0\<rparr>,
                      Some \<lparr>data = 3, pNext = None, pPrev = Some 1\<rparr>]
                     \<lparr>numElements = 3, pHead = Some 0, pTail = Some 2\<rparr>
                     (begin_l \<lparr>numElements = 3, pHead = Some 0, pTail = Some 2\<rparr>) 0
               = Inr (h', l', Iterator (Some 3)) \<and>
            dll h' l' [(3, 0), (0, 1), (1, 2), (2, 3)] \<and>
            numElements l' = 4 \<and> pHead l' = Some 3 \<and> pTail l' = Some 2)"
proof -
  let ?h = "[Some \<lparr>data = 1::int, pNext = Some 1, pPrev = None\<rparr>,
             Some \<lparr>data = 2, pNext = Some 2, pPrev = Some 0\<rparr>,
             Some \<lparr>data = 3, pNext = None, pPrev = Some 1\<rparr>]"
  let ?l = "\<lparr>numElements = 3, pHead = Some 0, pTail = Some 2\<rparr>"
  have ok: "heap_ok ?h" by (simp add: heap_ok_def max_nodes_def)
  have wf: "dll ?h ?l ([] @ [(0, 1), (1, 2), (2, 3)])"
    by (simp add: dll_def lookup_def last_ptr_def)
  have room: "length ?h < max_nodes" by (simp add: max_nodes_def)
  from insert_before_position[OF ok wf room, of 0] obtain h' l' where
    r: "insert_l ?h ?l (Iterator (first_ptr [(0, 1::int), (1, 2), (2, 3)] None)) 0
          = Inr (h', l', Iterator (Some (length ?h)))"
       "dll h' l' ([] @ (length ?h, 0) # [(0, 1), (1, 2), (2, 3)])"
       "numElements l' = numElements ?l + 1"
       "pHead l' = first_ptr ([] :: (addr \<times> int) list) (Some (length ?h))"
       "pTail l' = last_ptr (Some (length ?h)) [(0, 1::int), (1, 2), (2, 3)]"
    by blast
  have "insert_l ?h ?l (begin_l ?l) 0 = Inr (h', l', Iterator (Some 3))"
    using r(1) by (simp add: first_ptr_def begin_l_def)
  moreover have "dll h' l' [(3, 0), (0, 1), (1, 2), (2, 3)]"
    using r(2) by (simp add: numeral_3_eq_3)
  moreover have "numElements l' = 4" using r(3) by simp
  moreover have "pHead l' = Some 3" using r(4) by (simp add: first_ptr_def)
  moreover have "pTail l' = Some 2" using r(5) by (simp add: last_ptr_def)
  ultimately show ?thesis using ok wf by (intro conjI exI[of _ h'] exI[of _ l'])
qed

subsection \<open>C5: the invariants hold after every sequence of operations\<close>

text \<open>
  Claim C5. Every program of constructions (default, fill, initializer list, iterator pair,
  copy, move), \<^verbatim>\<open>push_front\<close>, \<^verbatim>\<open>push_back\<close>, \<^verbatim>\<open>pop_front\<close>, \<^verbatim>\<open>pop_back\<close>, \<^verbatim>\<open>insert\<close>,
  \<^verbatim>\<open>erase\<close>, \<^verbatim>\<open>clear\<close>, writes through an iterator, assignments (initializer list, copy,
  move, also of a list to itself) and \<^verbatim>\<open>swap\<close>, started with no list at all, returns; and
  when it ends without an error, every list \<open>l\<close> it has built satisfies: following
  \<^verbatim>\<open>pNext\<close> from \<^verbatim>\<open>pHead\<close> reaches null after exactly \<^verbatim>\<open>size()\<close> nodes, the last of them is
  \<^verbatim>\<open>pTail\<close>; \<^verbatim>\<open>empty()\<close> is \<^verbatim>\<open>size() == 0\<close>; the count is zero iff the head is null iff the
  tail is null; and for any two nodes \<open>A\<close>, \<open>B\<close> of the list, \<^verbatim>\<open>A.pNext == B\<close> iff
  \<^verbatim>\<open>B.pPrev == A\<close>.
\<close>

theorem invariants_after_any_operations:
  "(\<exists>r. run moved initial_state ops = Some r) \<and>
   (\<forall>s. run moved initial_state ops = Some (Inr s) \<longrightarrow>
        (\<forall>l \<in> set (lists s). list_invariant (heap s) l))"
proof (intro conjI allI impI ballI)
  show "\<exists>r. run moved initial_state ops = Some r"
    by (rule run_returns[OF sys_inv_initial])
next
  fix s l assume r: "run moved initial_state ops = Some (Inr s)" and l: "l \<in> set (lists s)"
  from l obtain i where "i < length (lists s)" "l = lists s ! i" by (auto simp: in_set_conv_nth)
  then show "list_invariant (heap s) l" using run_list_invariant[OF r] by simp
qed

theorem invariants_after_any_operations_witness:
  "run (\<lambda>d v. v) initial_state
     [Construct_il [1, 2, 3], Mutate 0 (Push_front 0), Construct_copy 0,
      Mutate 1 Pop_back, Mutate 1 (Insert 1 7), Move_assign 0 1, Swap 0 1,
      Mutate 0 (Erase 1), Construct_move 1, Mutate 1 (Push_back (4 :: int))]
   = Some (Inr \<lparr>heap =
          [Some \<lparr>data = 7, pNext = Some 1, pPrev = Some 3\<rparr>,
           Some \<lparr>data = 1, pNext = Some 2, pPrev = Some 0\<rparr>,
           Some \<lparr>data = 2, pNext = None, pPrev = Some 1\<rparr>,
           Some \<lparr>data = 0, pNext = Some 0, pPrev = None\<rparr>,
           Some \<lparr>data = 0, pNext = Some 5, pPrev = None\<rparr>,
           Some \<lparr>data = 1, pNext = Some 6, pPrev = Some 4\<rparr>,
           Some \<lparr>data = 2, pNext = None, pPrev = Some 5\<rparr>, None, None,
           Some \<lparr>data = 4, pNext = None, pPrev = None\<rparr>],
          lists =
            [\<lparr>numElements = 3, pHead = Some 4, pTail = Some 6\<rparr>,
             \<lparr>numElements = 1, pHead = Some 9, pTail = Some 9\<rparr>,
             \<lparr>numElements = 4, pHead = Some 3, pTail = Some 2\<rparr>]\<rparr>) \<and>
   list_invariant
     [Some \<lparr>data = 7 :: int, pNext = Some 1, pPrev = Some 3\<rparr>,
      Some \<lparr>data = 1, pNext = Some 2, pPrev = Some 0\<rparr>,
      Some \<lparr>data = 2, pNext = None, pPrev = Some 1\<rparr>,
      Some \<lparr>data = 0, pNext = Some 0, pPrev = None\<rparr>,
      Some \<lparr>data = 0, pNext = Some 5, pPrev = None\<rparr>,
      Some \<lparr>data = 1, pNext = Some 6, pPrev = Some 4\<rparr>,
      Some \<lparr>data = 2, pNext = None, pPrev = Some 5\<rparr>, None, None,
      Some \<lparr>data = 4, pNext = None, pPrev = None\<rparr>]
     \<lparr>numElements = 4, pHead = Some 3, pTail = Some 2\<rparr>"
proof -
  let ?ops = "[Construct_il [1, 2, 3], Mutate 0 (Push_front 0), Construct_copy 0,
      Mutate 1 Pop_back, Mutate 1 (Insert 1 7), Move_assign 0 1, Swap 0 1,
      Mutate 0 (Erase 1), Construct_move 1, Mutate 1 (Push_back (4 :: int))]"
  let ?s = "\<lparr>heap =
          [Some \<lparr>data = 7 :: int, pNext = Some 1, pPrev = Some 3\<rparr>,
           Some \<lparr>data = 1, pNext = Some 2, pPrev = Some 0\<rparr>,
           Some \<lparr>data = 2, pNext = None, pPrev = Some 1\<rparr>,
           Some \<lparr>data = 0, pNext = Some 0, pPrev = None\<rparr>,
           Some \<lparr>data = 0, pNext = Some 5, pPrev = None\<rparr>,
           Some \<lparr>data = 1, pNext = Some 6, pPrev = Some 4\<rparr>,
           Some \<lparr>data = 2, pNext = None, pPrev = Some 5\<rparr>, None, None,
           Some \<lparr>data = 4, pNext = None, pPrev = None\<rparr>],
          lists =
            [\<lparr>numElements = 3, pHead = Some 4, pTail = Some 6\<rparr>,
             \<lparr>numElements = 1, pHead = Some 9, pTail = Some 9\<rparr>,
             \<lparr>numElements = 4, pHead = Some 3, pTail = Some 2\<rparr>]\<rparr>"
  have r: "run (\<lambda>d v. v) initial_state ?ops = Some (Inr ?s)" by code_simp
  have "\<forall>l \<in> set (lists ?s). list_invariant (heap ?s) l"
    using invariants_after_any_operations[of "\<lambda>d v. v" ?ops, THEN conjunct2, THEN spec, THEN mp, OF r] .
  then show ?thesis using r by simp
qed

subsection \<open>C6: assignment of an initializer list\<close>

text \<open>
  Claim C6. Assigning the literal \<open>vs\<close> to a well-formed list \<open>ns\<close>, with room for the
  nodes that have to be added, succeeds. The resulting list holds exactly \<open>vs\<close>, its
  size is the length of \<open>vs\<close>, and reading it front to back gives \<open>vs\<close>. Its nodes
  are the first \<open>length vs\<close> nodes of \<open>ns\<close>, reused with their values overwritten,
  followed by newly allocated nodes when \<open>vs\<close> is longer; the nodes of \<open>ns\<close> beyond
  \<open>length vs\<close> are released; no node outside the list is touched. The witness holds
  both examples of the specification: \<open>{1,2}\<close> onto \<open>[9,9,9,9]\<close> and \<open>{1,2,3,4}\<close>
  onto \<open>[9,9]\<close>.
\<close>

theorem assign_il_matches_literal:
  assumes wf: "dll h l ns" and room: "length h + (length vs - length ns) \<le> max_nodes"
  shows "\<exists>h' l' ns'. assign_il h l vs = Inr (h', l') \<and> dll h' l' ns' \<and>
           map snd ns' = vs \<and> size_l l' = of_nat (length vs) \<and>
           forward_contents h' l' = Some (Inr vs) \<and>
           map fst ns' = map fst (take (length vs) ns)
                           @ [length h ..< length h + (length vs - length ns)] \<and>
           (\<forall>a \<in> fst ` set (drop (length vs) ns). lookup h' a = None) \<and>
           (\<forall>b. b \<notin> fst ` set ns \<and> b < length h \<longrightarrow> lookup h' b = lookup h b)"
proof -
  from assign_il_spec[OF wf room] obtain h' l' ns' where
    r: "assign_il h l vs = Inr (h', l')" "dll h' l' ns'" "map snd ns' = vs"
    "map fst ns' = map fst (take (length vs) ns)
                     @ [length h ..< length h + (length vs - length ns)]"
    "\<forall>a \<in> fst ` set (drop (length vs) ns). lookup h' a = None"
    "\<forall>b. b \<notin> fst ` set ns \<and> b < length h \<longrightarrow> lookup h' b = lookup h b"
    by blast
  have len: "length ns' = length vs" using r(3) by (metis length_map)
  have sz: "size_l l' = of_nat (length vs)" using r(2) len by (simp add: dll_def size_l_def)
  have fc: "forward_contents h' l' = Some (Inr vs)"
    using forward_contents_dll[OF r(2)] r(3) by simp
  show ?thesis using r sz fc
    by (intro exI[of _ h'] exI[of _ l'] exI[of _ ns'] conjI) assumption+
qed

theorem assign_il_matches_literal_witness:
  "dll [Some \<lparr>data = 9::int, pNext = Some 1, pPrev = None\<rparr>,
        Some \<lparr>data = 9, pNext = Some 2, pPrev = Some 0\<rparr>,
        Some \<lparr>data = 9, pNext = Some 3, pPrev = Some 1\<rparr>,
        Some \<lparr>data = 9, pNext = None, pPrev = Some 2\<rparr>]
       \<lparr>numElements = 4, pHead = Some 0, pTail = Some 3\<rparr>
       [(0, 9), (1, 9), (2, 9), (3, 9)] \<and>
   (\<exists>h' l' ns'.
      assign_il [Some \<lparr>data = 9::int, pNext = Some 1, pPrev = None\<rparr>,
                 Some \<lparr>data = 9, pNext = Some 2, pPrev = Some 0\<rparr>,
                 Some \<lparr>data = 9, pNext = Some 3, pPrev = Some 1\<rparr>,
                 Some \<lparr>data = 9, pNext = None, pPrev = Some 2\<rparr>]
                \<lparr>numElements = 4, pHead = Some 0, pTail = Some 3\<rparr> [1, 2] = Inr (h', l') \<and>
      dll h' l' ns' \<and> map snd ns' = [1, 2] \<and> size_l l' = 2 \<and> map fst ns' = [0, 1] \<and>
      lookup h' 2 = None \<and> lookup h' 3 = None) \<and>
   dll [Some \<lparr>data = 9::int, pNext = Some 1, pPrev = None\<rparr>,
        Some \<lparr>data = 9, pNext = None, pPrev = Some 0\<rparr>]
       \<lparr>numElements = 2, pHead = Some 0, pTail = Some 1\<rparr> [(0, 9), (1, 9)] \<and>
   (\<exists>h' l' ns'.
      assign_il [Some \<lparr>data = 9::int, pNext = Some 1, pPrev = None\<rparr>,
                 Some \<lparr>data = 9, pNext = None, pPrev = Some 0\<rparr>]
                \<lparr>numElements = 2, pHead = Some 0, pTail = Some 1\<rparr> [1, 2, 3, 4] = Inr (h', l') \<and>
      dll h' l' ns' \<and> map snd ns' = [1, 2, 3, 4] \<and> size_l l' = 4 \<and>
      map fst ns' = [0, 1, 2, 3])"
proof -
  let ?h4 = "[Some \<lparr>data = 9::int, pNext = Some 1, pPrev = None\<rparr>,
              Some \<lparr>data = 9, pNext = Some 2, pPrev = Some 0\<rparr>,
              Some \<lparr>data = 9, pNext = Some 3, pPrev = Some 1\<rparr>,
              Some \<lparr>data = 9, pNext = None, pPrev = Some 2\<rparr>]"
  let ?l4 = "\<lparr>numElements = 4, pHead = Some 0, pTail = Some 3\<rparr>"
  let ?n4 = "[(0, 9), (1, 9), (2, 9), (3, 9)] :: (addr \<times> int) list"
  let ?h2 = "[Some \<lparr>data = 9::int, pNext = Some 1, pPrev = None\<rparr>,
              Some \<lparr>data = 9, pNext = None, pPrev = Some 0\<rparr>]"
  let ?l2 = "\<lparr>numElements = 2, pHead = Some 0, pTail = Some 1\<rparr>"
  let ?n2 = "[(0, 9), (1, 9)] :: (addr \<times> int) list"
  have wf4: "dll ?h4 ?l4 ?n4" by (simp add: dll_def lookup_def last_ptr_def)
  have wf2: "dll ?h2 ?l2 ?n2" by (simp add: dll_def lookup_def last_ptr_def)
  have room4: "length ?h4 + (length [1, 2 :: int] - length ?n4) \<le> max_nodes"
    by (simp add: max_nodes_def)
  have room2: "length ?h2 + (length [1, 2, 3, 4 :: int] - length ?n2) \<le> max_nodes"
    by (simp add: max_nodes_def)
  from assign_il_matches_literal[OF wf4 room4] obtain h' l' ns' where
    a: "assign_il ?h4 ?l4 [1, 2] = Inr (h', l')" "dll h' l' ns'" "map snd ns' = [1, 2]"
       "size_l l' = of_nat (length [1, 2 :: int])"
       "map fst ns' = map fst (take (length [1, 2 :: int]) ?n4)
                        @ [length ?h4 ..< length ?h4 + (length [1, 2 :: int] - length ?n4)]"
       "\<forall>a \<in> fst ` set (drop (length [1, 2 :: int]) ?n4). lookup h' a = None"
    by (elim exE conjE) (rule that; assumption)
  have a': "\<exists>h' l' ns'. assign_il ?h4 ?l4 [1, 2] = Inr (h', l') \<and>
      dll h' l' ns' \<and> map snd ns' = [1, 2] \<and> size_l l' = 2 \<and> map fst ns' = [0, 1] \<and>
      lookup h' 2 = None \<and> lookup h' 3 = None"
    using a by (intro exI[of _ h'] exI[of _ l'] exI[of _ ns']) simp
  from assign_il_matches_literal[OF wf2 room2] obtain h'' l'' ns'' where
    b: "assign_il ?h2 ?l2 [1, 2, 3, 4] = Inr (h'', l'')" "dll h'' l'' ns''"
       "map snd ns'' = [1, 2, 3, 4]"
       "size_l l'' = of_nat (length [1, 2, 3, 4 :: int])"
       "map fst ns'' = map fst (take (length [1, 2, 3, 4 :: int]) ?n2)
                        @ [length ?h2 ..< length ?h2 + (length [1, 2, 3, 4 :: int] - length ?n2)]"
    by (elim exE conjE) (rule that; assumption)
  have b': "\<exists>h' l' ns'. assign_il ?h2 ?l2 [1, 2, 3, 4] = Inr (h', l') \<and>
      dll h' l' ns' \<and> map snd ns' = [1, 2, 3, 4] \<and> size_l l' = 4 \<and>
      map fst ns' = [0, 1, 2, 3]"
    using b by (intro exI[of _ h''] exI[of _ l''] exI[of _ ns'']) (simp add: upt_rec)
  show ?thesis using wf4 wf2 a' b' by (intro conjI)
qed

subsection \<open>C7: construction followed by traversal\<close>

text \<open>
  Claim C7. For every sequence \<open>S\<close> that fits into the store, constructing a list from
  \<open>S\<close> (from an initializer list or from an iterator pair) succeeds, the loop from
  \<^verbatim>\<open>begin()\<close> by \<^verbatim>\<open>++\<close> to \<^verbatim>\<open>end()\<close> returns and reads exactly \<open>S\<close>, and the loop from
  \<^verbatim>\<open>rbegin()\<close> by \<^verbatim>\<open>--\<close> to \<^verbatim>\<open>end()\<close> returns and reads \<open>S\<close> reversed.
\<close>

theorem construct_then_iterate:
  assumes "length h + length S \<le> max_nodes"
  shows "\<exists>h' l'. list_il h S = Inr (h', l') \<and> list_range h S = Inr (h', l') \<and>
           forward_contents h' l' = Some (Inr S) \<and>
           backward_contents h' l' = Some (Inr (rev S))"
proof -
  from push_all_spec[OF dll_default assms] obtain h' l' where
    p: "push_all h list_default S = Inr (h', l')"
    "dll h' l' ([] @ zip [length h ..< length h + length S] S)"
    by blast
  have "map snd (zip [length h ..< length h + length S] S) = S" by simp
  then show ?thesis
    using p(1) forward_contents_dll[OF p(2)] backward_contents_dll[OF p(2)]
    by (simp add: list_il_def list_range_def)
qed

theorem construct_then_iterate_witness:
  "length ([] :: int heap) + length [4, 5, 6 :: int] \<le> max_nodes \<and>
   (\<exists>h' l'. list_il [] [4, 5, 6 :: int] = Inr (h', l') \<and>
            forward_contents h' l' = Some (Inr [4, 5, 6]) \<and>
            backward_contents h' l' = Some (Inr [6, 5, 4]))"
proof -
  have room: "length ([] :: int heap) + length [4, 5, 6 :: int] \<le> max_nodes"
    by (simp add: max_nodes_def)
  from construct_then_iterate[OF room] show ?thesis using room by auto
qed

subsection \<open>C8: front and back\<close>

text \<open>
  Claim C8. On an empty list \<^verbatim>\<open>front\<close> and \<^verbatim>\<open>back\<close> throw. On a non-empty list they
  return a reference to the element of the first and of the last node: reading through
  it gives that element, and assigning through it replaces that element and nothing else.
\<close>

theorem front_back_access:
  assumes "heap_ok h" and "dll h l ns"
  shows "(empty_l l \<longrightarrow>
            front l = Inl (Thrown empty_message) \<and> back_l l = Inl (Thrown empty_message)) \<and>
         (\<not> empty_l l \<longrightarrow>
            ns \<noteq> [] \<and>
            front l = Inr (fst (hd ns)) \<and> get_ref h (fst (hd ns)) = Inr (snd (hd ns)) \<and>
            back_l l = Inr (fst (last ns)) \<and> get_ref h (fst (last ns)) = Inr (snd (last ns)) \<and>
            (\<forall>w. \<exists>h'. set_ref h (fst (hd ns)) w = Inr h' \<and> dll h' l ((fst (hd ns), w) # tl ns)) \<and>
            (\<forall>w. \<exists>h'. set_ref h (fst (last ns)) w = Inr h' \<and>
                       dll h' l (butlast ns @ [(fst (last ns), w)])))"
proof (cases "ns = []")
  case True
  then have "empty_l l" using dll_empty_iff[OF assms(2,1)] by simp
  moreover have "pHead l = None" "pTail l = None"
    using assms(2) True by (simp_all add: dll_def last_ptr_def)
  ultimately show ?thesis by (simp add: front_def back_l_def)
next
  case False
  then have ne: "\<not> empty_l l" using dll_empty_iff[OF assms(2,1)] by simp
  obtain a v ys where hd: "ns = [] @ (a, v) # ys" using False by (cases ns) auto
  obtain xs b u where lst: "ns = xs @ (b, u) # []"
    using False by (cases ns rule: rev_cases) auto
  have f: "front l = Inr a" using dll_head[OF assms(2)] hd by (simp add: front_def first_ptr_def)
  have b: "back_l l = Inr b" using dll_tail[OF assms(2)] lst by (simp add: back_l_def last_ptr_def)
  have ga: "get_ref h a = Inr v"
    using dll_lookup[of h l "[]" a v ys] assms(2) hd by (auto simp: get_ref_def deref_Some)
  have gb: "get_ref h b = Inr u"
    using dll_lookup[of h l xs b u "[]"] assms(2) lst by (auto simp: get_ref_def deref_Some)
  have sa: "\<forall>w. \<exists>h'. set_ref h a w = Inr h' \<and> dll h' l ((a, w) # ys)"
    using dll_set_data[of h l "[]" a v ys] assms(2) hd by auto
  have sb: "\<forall>w. \<exists>h'. set_ref h b w = Inr h' \<and> dll h' l (xs @ [(b, w)])"
    using dll_set_data[of h l xs b u "[]"] assms(2) lst by auto
  have "hd ns = (a, v)" "tl ns = ys" using hd by simp_all
  moreover have "last ns = (b, u)" "butlast ns = xs" using lst by simp_all
  ultimately show ?thesis using ne False f b ga gb sa sb by simp
qed

theorem front_back_access_witness:
  "heap_ok [Some \<lparr>data = 7::int, pNext = Some 1, pPrev = None\<rparr>,
            Some \<lparr>data = 9, pNext = None, pPrev = Some 0\<rparr>] \<and>
   dll [Some \<lparr>data = 7::int, pNext = Some 1, pPrev = None\<rparr>,
        Some \<lparr>data = 9, pNext = None, pPrev = Some 0\<rparr>]
       \<lparr>numElements = 2, pHead = Some 0, pTail = Some 1\<rparr> [(0, 7), (1, 9)] \<and>
   \<not> empty_l \<lparr>numElements = 2, pHead = Some 0, pTail = Some 1\<rparr> \<and>
   front \<lparr>numElements = 2, pHead = Some 0, pTail = Some 1\<rparr> = Inr 0 \<and>
   get_ref [Some \<lparr>data = 7::int, pNext = Some 1, pPrev = None\<rparr>,
            Some \<lparr>data = 9, pNext = None, pPrev = Some 0\<rparr>] 0 = Inr 7 \<and>
   back_l \<lparr>numElements = 2, pHead = Some 0, pTail = Some 1\<rparr> = Inr 1 \<and>
   get_ref [Some \<lparr>data = 7::int, pNext = Some 1, pPrev = None\<rparr>,
            Some \<lparr>data = 9, pNext = None, pPrev = Some 0\<rparr>] 1 = Inr 9"
proof -
  let ?h = "[Some \<lparr>data = 7::int, pNext = Some 1, pPrev = None\<rparr>,
             Some \<lparr>data = 9, pNext = None, pPrev = Some 0\<rparr>]"
  let ?l = "\<lparr>numElements = 2, pHead = Some 0, pTail = Some 1\<rparr>"
  have ok: "heap_ok ?h" by (simp add: heap_ok_def max_nodes_def)
  have wf: "dll ?h ?l [(0, 7), (1, 9)]" by (simp add: dll_def lookup_def last_ptr_def)
  have ne: "\<not> empty_l ?l" by (simp add: empty_l_def size_l_def)
  show ?thesis using ok wf ne front_back_access[OF ok wf] by simp
qed

subsection \<open>C9: the iterator at the null position\<close>

text \<open>
  Claim C9. At the null position the four stepping operators leave the iterator null and
  do not fail, and \<^verbatim>\<open>operator *\<close> throws. At a node, \<^verbatim>\<open>operator *\<close> returns a reference
  to the element of that node: reading through it gives the element, assigning through it
  replaces the element and leaves every other node as it was.
\<close>

theorem iterator_null_and_deref:
  "iter_inc h (Iterator None) = Inr (Iterator None, Iterator None) \<and>
   iter_inc_post h (Iterator None) = Inr (Iterator None, Iterator None) \<and>
   iter_dec h (Iterator None) = Inr (Iterator None, Iterator None) \<and>
   iter_dec_post h (Iterator None) = Inr (Iterator None, Iterator None) \<and>
   iter_deref (Iterator None) = Inl (Thrown empty_message) \<and>
   iter_deref (Iterator (Some a)) = Inr a \<and>
   (lookup h a = Some n \<longrightarrow>
      get_ref h a = Inr (data n) \<and>
      (\<exists>h'. set_ref h a w = Inr h' \<and> get_ref h' a = Inr w \<and>
            lookup h' a = Some (n\<lparr>data := w\<rparr>) \<and>
            (\<forall>b. b \<noteq> a \<longrightarrow> lookup h' b = lookup h b)))"
  by (auto simp: iter_inc_def iter_inc_post_def iter_dec_def iter_dec_post_def iter_deref_def
      get_ref_def set_ref_def deref_def update_node_Some lookup_update
      dest: lookup_Some_less)

theorem iterator_null_and_deref_witness:
  "lookup [Some \<lparr>data = 7::int, pNext = None, pPrev = None\<rparr>] 0
     = Some \<lparr>data = 7, pNext = None, pPrev = None\<rparr> \<and>
   iter_deref (Iterator (Some 0)) = Inr 0 \<and>
   get_ref [Some \<lparr>data = 7::int, pNext = None, pPrev = None\<rparr>] 0 = Inr 7 \<and>
   (\<exists>h'. set_ref [Some \<lparr>data = 7::int, pNext = None, pPrev = None\<rparr>] 0 8 = Inr h' \<and>
         get_ref h' 0 = Inr 8)"
proof -
  let ?h = "[Some \<lparr>data = 7::int, pNext = None, pPrev = None\<rparr>]"
  have lk: "lookup ?h 0 = Some \<lparr>data = 7, pNext = None, pPrev = None\<rparr>"
    by (simp add: lookup_def)
  show ?thesis
    using lk iterator_null_and_deref[of ?h 0 "\<lparr>data = 7, pNext = None, pPrev = None\<rparr>" 8]
    by auto
qed

subsection \<open>C10: what the postfix operators return\<close>

text \<open>
  Claim C10. The postfix increment and decrement return the same as the prefix forms: the
  iterator after the move, not a copy of the iterator before it. The witness steps from
  the first of two nodes: \<open>it++\<close> returns the iterator at the second node.
\<close>

theorem postfix_returns_moved_iterator:
  "iter_inc_post h it = iter_inc h it \<and> iter_dec_post h it = iter_dec h it \<and>
   (\<forall>this r. iter_inc_post h it = Inr (this, r) \<longrightarrow> r = this) \<and>
   (\<forall>this r. iter_dec_post h it = Inr (this, r) \<longrightarrow> r = this) \<and>
   (lookup h a = Some n \<longrightarrow>
      iter_inc_post h (Iterator (Some a)) = Inr (Iterator (pNext n), Iterator (pNext n)) \<and>
      iter_dec_post h (Iterator (Some a)) = Inr (Iterator (pPrev n), Iterator (pPrev n)))"
  by (auto simp: iter_inc_def iter_inc_post_def iter_dec_def iter_dec_post_def deref_def Let_def
      split: option.splits)

theorem postfix_returns_moved_iterator_witness:
  "lookup [Some \<lparr>data = 7::int, pNext = Some 1, pPrev = None\<rparr>,
           Some \<lparr>data = 9, pNext = None, pPrev = Some 0\<rparr>] 0
     = Some \<lparr>data = 7, pNext = Some 1, pPrev = None\<rparr> \<and>
   iter_inc_post [Some \<lparr>data = 7::int, pNext = Some 1, pPrev = None\<rparr>,
                  Some \<lparr>data = 9, pNext = None, pPrev = Some 0\<rparr>] (Iterator (Some 0))
     = Inr (Iterator (Some 1), Iterator (Some 1)) \<and>
   iter_dec_post [Some \<lparr>data = 7::int, pNext = Some 1, pPrev = None\<rparr>,
                  Some \<lparr>data = 9, pNext = None, pPrev = Some 0\<rparr>] (Iterator (Some 0))
     = Inr (Iterator None, Iterator None)"
proof -
  let ?h = "[Some \<lparr>data = 7::int, pNext = Some 1, pPrev = None\<rparr>,
             Some \<lparr>data = 9, pNext = None, pPrev = Some 0\<rparr>]"
  have lk: "lookup ?h 0 = Some \<lparr>data = 7, pNext = Some 1, pPrev = None\<rparr>"
    by (simp add: lookup_def)
  have "iter_inc_post ?h (Iterator (Some 0))
          = Inr (Iterator (pNext \<lparr>data = 7::int, pNext = Some 1, pPrev = None\<rparr>),
                 Iterator (pNext \<lparr>data = 7::int, pNext = Some 1, pPrev = None\<rparr>)) \<and>
        iter_dec_post ?h (Iterator (Some 0))
          = Inr (Iterator (pPrev \<lparr>data = 7::int, pNext = Some 1, pPrev = None\<rparr>),
                 Iterator (pPrev \<lparr>data = 7::int, pNext = Some 1, pPrev = None\<rparr>))"
    using lk postfix_returns_moved_iterator[of ?h "Iterator (Some 0)" 0
        "\<lparr>data = 7, pNext = Some 1, pPrev = None\<rparr>"]
    by blast
  then show ?thesis using lk by simp
qed

end
